theory Spec2Isabelle
  imports Complex_Main
begin

section \<open>NeuraSentinel: the IMU signal-to-segments pipeline\<close>

text \<open>
  A shallow embedding of \<^verbatim>\<open>backend/prepare_phone_dataset.py\<close>,
  \<^verbatim>\<open>backend/augment_from_new_phone_dataset.py\<close> and the augmentation part of
  \<^verbatim>\<open>backend/train_cnn.py\<close>.

  Python floats are modelled as real numbers: an arithmetic step is the exact one,
  without IEEE rounding, except where a text below says otherwise (the sample counts of
  the segmenter take the rounding of the product as an argument). The concrete inputs of
  this development are chosen so that the floating-point run takes the same branches and
  yields the same indices and shapes (small integers, halves and quarters, or
  comparisons decided with a wide margin), and the statements about the resampling grid
  keep away from the inputs at which rounding decides the number of grid points.
  A two-dimensional numpy array is a record of its column count and its list of rows, so
  that an array with no rows still has a shape. Every exception the source can raise is a
  value of \<open>error\<close>, returned on the left of a sum.
\<close>

subsection \<open>Errors and arrays\<close>

datatype error =
    InconsistentShapes      \<comment> \<open>ValueError("Inconsistent shapes for t and xyz")\<close>
  | ZeroDivision            \<comment> \<open>ZeroDivisionError of \<^verbatim>\<open>1.0 / fs\<close>\<close>
  | IndexError              \<comment> \<open>an index out of range\<close>
  | NoOverlap               \<comment> \<open>ValueError("No overlapping time range ...")\<close>
  | ChannelAssertion        \<comment> \<open>AssertionError("Expected 6 channels in data6")\<close>
  | ChannelMismatch         \<comment> \<open>ValueError("Expected 6 channels, got ...")\<close>
  | NegativeSampleCount     \<comment> \<open>ValueError of \<^verbatim>\<open>np.linspace\<close> for a negative \<^verbatim>\<open>num\<close>\<close>
  | EmptySamplePoints       \<comment> \<open>ValueError("array of sample points is empty") of \<^verbatim>\<open>np.interp\<close>\<close>

record array2 =
  ncols :: nat
  rows :: "real list list"

definition nrows :: "array2 \<Rightarrow> nat" where
  "nrows a = length (rows a)"

definition wf_array :: "array2 \<Rightarrow> bool" where
  "wf_array a = list_all (\<lambda>r. length r = ncols a) (rows a)"

definition column :: "array2 \<Rightarrow> nat \<Rightarrow> real list" where
  "column a j = map (\<lambda>r. r ! j) (rows a)"

subsection \<open>The numpy and Python primitives the pipeline uses\<close>

text \<open>\<^verbatim>\<open>int(x)\<close> on a float truncates toward zero.\<close>

definition py_int :: "real \<Rightarrow> int" where
  "py_int x = (if 0 \<le> x then \<lfloor>x\<rfloor> else \<lceil>x\<rceil>)"

text \<open>
  \<^verbatim>\<open>np.arange(start, stop, step)\<close> has \<open>ceil((stop - start) / step)\<close> elements
  (none when that is not positive), the \<open>i\<close>-th being \<open>start + i * step\<close>. The model
  takes the quotient and the points over the reals. numpy takes the ceiling of the
  quotient of doubles, so that its count can differ by one where the real quotient is an
  integer or within rounding distance of one, and its points differ from the real ones by
  rounding. The statements about the grid keep to what holds of both.
\<close>

definition arange_len :: "real \<Rightarrow> real \<Rightarrow> real \<Rightarrow> nat" where
  "arange_len start stop step = nat \<lceil>(stop - start) / step\<rceil>"

definition arange :: "real \<Rightarrow> real \<Rightarrow> real \<Rightarrow> real list" where
  "arange start stop step =
     map (\<lambda>i. start + real i * step) [0..<arange_len start stop step]"

text \<open>
  \<^verbatim>\<open>np.linspace(start, stop, num)\<close>: \<open>num\<close> evenly spaced points with both ends
  included; a negative \<open>num\<close> raises.
\<close>

definition linspace :: "real \<Rightarrow> real \<Rightarrow> int \<Rightarrow> error + real list" where
  "linspace start stop num =
     (if num < 0 then Inl NegativeSampleCount
      else if num = 1 then Inr [start]
      else Inr (map (\<lambda>i. start + real i * ((stop - start) / real_of_int (num - 1)))
                  [0..<nat num]))"

text \<open>
  \<^verbatim>\<open>np.interp(x, xp, fp)\<close> at one query point, for increasing sample points \<open>xp\<close>
  (every call site passes a strictly increasing axis): below the first sample point the
  first value, above the last the last value, at or after the last sample point its value,
  and between \<open>xp[j] \<le> x < xp[j+1]\<close> the value on the chord.
\<close>

fun interp_seg :: "real \<Rightarrow> real list \<Rightarrow> real list \<Rightarrow> real" where
  "interp_seg x (x0 # x1 # xs) (y0 # y1 # ys) =
     (if x < x1 then (if x0 = x then y0 else (y1 - y0) / (x1 - x0) * (x - x0) + y0)
      else interp_seg x (x1 # xs) (y1 # ys))"
| "interp_seg x xp (y0 # ys) = y0"
| "interp_seg x xp [] = 0"

definition interp_at :: "real \<Rightarrow> real list \<Rightarrow> real list \<Rightarrow> real" where
  "interp_at x xp fp =
     (if x < hd xp then hd fp
      else if last xp < x then last fp
      else interp_seg x xp fp)"

text \<open>
  The loop \<^verbatim>\<open>for j in range(d): out[:, j] = np.interp(new_x, old_x, a[:, j])\<close>, which
  fills an array with one row per query point. \<^verbatim>\<open>np.interp\<close> raises when it is given
  no sample points; with no column the loop body never runs.
\<close>

definition interp_columns :: "real list \<Rightarrow> real list \<Rightarrow> array2 \<Rightarrow> error + array2" where
  "interp_columns new_x old_x a =
     (if 0 < ncols a \<and> old_x = [] then Inl EmptySamplePoints
      else Inr \<lparr>ncols = ncols a,
                rows = map (\<lambda>x. map (\<lambda>j. interp_at x old_x (column a j)) [0..<ncols a]) new_x\<rparr>)"

subsection \<open>Fixed-Length Normalizer: \<^verbatim>\<open>to_fixed_length\<close>\<close>

definition to_fixed_length :: "array2 \<Rightarrow> int \<Rightarrow> error + array2" where
  "to_fixed_length seg target_len =
     (let t = int (nrows seg); d = ncols seg in
      if d \<noteq> 6 then Inl ChannelMismatch
      else if t = target_len then Inr seg
      else (case linspace 0 1 t of
              Inl e \<Rightarrow> Inl e
            | Inr old_x \<Rightarrow>
               (case linspace 0 1 target_len of
                  Inl e \<Rightarrow> Inl e
                | Inr new_x \<Rightarrow> interp_columns new_x old_x seg)))"

subsection \<open>Grid Resampler: \<^verbatim>\<open>resample_to_grid\<close>\<close>

text \<open>
  The trace is the timestamp array \<open>t\<close> together with the rows of \<open>xyz\<close>.
  \<^verbatim>\<open>order = np.argsort(t)\<close> sorts the samples by time (the model sorts stably; numpy's
  default sort may order samples of equal time differently, which changes no timestamp),
  and the mask \<^verbatim>\<open>mask[1:] = t[1:] > t[:-1]\<close> keeps the first sample and every sample
  whose time exceeds that of its predecessor in the sorted order.
\<close>

fun mask_from :: "real \<Rightarrow> (real \<times> 'a) list \<Rightarrow> (real \<times> 'a) list" where
  "mask_from prev [] = []"
| "mask_from prev (q # qs) =
     (if prev < fst q then q # mask_from (fst q) qs else mask_from (fst q) qs)"

fun drop_repeats :: "(real \<times> 'a) list \<Rightarrow> (real \<times> 'a) list" where
  "drop_repeats [] = []"
| "drop_repeats (p # ps) = p # mask_from (fst p) ps"

definition clean_trace :: "real list \<Rightarrow> real list list \<Rightarrow> (real \<times> real list) list" where
  "clean_trace t xs = drop_repeats (sort_key fst (zip t xs))"

definition cleaned_times :: "real list \<Rightarrow> array2 \<Rightarrow> real list" where
  "cleaned_times t xyz = map fst (clean_trace t (rows xyz))"

definition resample_to_grid :: "real list \<Rightarrow> array2 \<Rightarrow> real \<Rightarrow> error + (real list \<times> array2)" where
  "resample_to_grid t xyz fs =
     (if nrows xyz \<noteq> length t then Inl InconsistentShapes
      else
        let cleaned = clean_trace t (rows xyz);
            ts = map fst cleaned;
            xs = map snd cleaned
        in
          if fs = 0 then Inl ZeroDivision
          else
            let dt = 1 / fs in
            if ts = [] then Inl IndexError
            else
              let t_min = hd ts;
                  t_max = last ts;
                  t_grid = arange t_min (t_max + 0.5 * dt) dt
              in
                (case interp_columns t_grid ts \<lparr>ncols = ncols xyz, rows = xs\<rparr> of
                   Inl e \<Rightarrow> Inl e
                 | Inr out \<Rightarrow> Inr (t_grid, out)))"

subsection \<open>Dual-Sensor Merger: \<^verbatim>\<open>build_common_six_axis\<close>\<close>

text \<open>
  The model starts from the two loaded traces, \<open>(t_acc, acc)\<close> and \<open>(t_gyr, gyr)\<close>, as
  \<^verbatim>\<open>load_sensor_file\<close> returns them (reading the files is outside the model).
  Indexing an empty grid, or a column beyond the array's width, raises IndexError.
\<close>

definition build_common_six_axis ::
  "real list \<Rightarrow> array2 \<Rightarrow> real list \<Rightarrow> array2 \<Rightarrow> real \<Rightarrow> error + (real list \<times> array2)" where
  "build_common_six_axis t_acc acc t_gyr gyr fs =
     (case resample_to_grid t_acc acc fs of
        Inl e \<Rightarrow> Inl e
      | Inr (t_acc_g, acc_g) \<Rightarrow>
         (case resample_to_grid t_gyr gyr fs of
            Inl e \<Rightarrow> Inl e
          | Inr (t_gyr_g, gyr_g) \<Rightarrow>
             if t_acc_g = [] \<or> t_gyr_g = [] then Inl IndexError
             else
               let t_start = max (hd t_acc_g) (hd t_gyr_g);
                   t_end = min (last t_acc_g) (last t_gyr_g)
               in
                 if t_end \<le> t_start then Inl NoOverlap
                 else
                   let dt = 1 / fs;
                       t_grid = arange t_start (t_end + 0.5 * dt) dt
                   in
                     if ncols acc_g < 3 \<or> ncols gyr_g < 3 then Inl IndexError
                     else Inr (t_grid,
                       \<lparr>ncols = 6,
                        rows = map (\<lambda>x.
                                 map (\<lambda>i. interp_at x t_acc_g (column acc_g i)) [0..<3] @
                                 map (\<lambda>i. interp_at x t_gyr_g (column gyr_g i)) [0..<3])
                               t_grid\<rparr>)))"

subsection \<open>Peak Detector: \<^verbatim>\<open>smooth_and_detect_peaks\<close>\<close>

text \<open>
  \<^verbatim>\<open>np.convolve(a, v, mode="same")\<close>: the full convolution has
  \<open>length a + length v - 1\<close> entries, entry \<open>m\<close> being the sum of \<open>a[j] * v[m - j]\<close>;
  mode "same" returns its centred slice of length \<open>max (length a) (length v)\<close>, which
  starts at offset \<open>(min (length a) (length v) - 1) div 2\<close>. Both arguments are non-empty
  at the only call site.
\<close>

definition convolve_full :: "real list \<Rightarrow> real list \<Rightarrow> real list" where
  "convolve_full a v =
     map (\<lambda>m. \<Sum>j\<leftarrow>[0..<length a].
                 if j \<le> m \<and> m - j < length v then a ! j * v ! (m - j) else 0)
         [0..<length a + length v - 1]"

definition convolve_same :: "real list \<Rightarrow> real list \<Rightarrow> real list" where
  "convolve_same a v =
     take (max (length a) (length v))
          (drop ((min (length a) (length v) - 1) div 2) (convolve_full a v))"

definition np_mean :: "real list \<Rightarrow> real" where
  "np_mean xs = sum_list xs / real (length xs)"

text \<open>\<^verbatim>\<open>ndarray.std()\<close>: the population standard deviation.\<close>

definition np_std :: "real list \<Rightarrow> real" where
  "np_std xs = sqrt (sum_list (map (\<lambda>x. (x - np_mean xs)\<^sup>2) xs) / real (length xs))"

text \<open>Indexing with a Python integer: a negative index counts from the end.\<close>

definition py_index :: "real list \<Rightarrow> int \<Rightarrow> error + real" where
  "py_index xs i =
     (if 0 \<le> i \<and> i < int (length xs) then Inr (xs ! nat i)
      else if i < 0 \<and> - int (length xs) \<le> i then Inr (xs ! nat (int (length xs) + i))
      else Inl IndexError)"

text \<open>
  The spacing loop over the candidates. Its state is the list \<open>peaks\<close> and \<open>last_idx\<close>.
  \<^verbatim>\<open>peaks[-1] = idx\<close> raises on an empty list.
\<close>

fun enforce_spacing ::
  "real list \<Rightarrow> int \<Rightarrow> int list \<Rightarrow> int list \<times> int \<Rightarrow> error + int list" where
  "enforce_spacing smooth min_dist [] (peaks, last_idx) = Inr peaks"
| "enforce_spacing smooth min_dist (idx # rest) (peaks, last_idx) =
     (if min_dist \<le> idx - last_idx
      then enforce_spacing smooth min_dist rest (peaks @ [idx], idx)
      else
        (case py_index smooth idx of
           Inl e \<Rightarrow> Inl e
         | Inr a \<Rightarrow>
            (case py_index smooth last_idx of
               Inl e \<Rightarrow> Inl e
             | Inr b \<Rightarrow>
                if b < a
                then (if peaks = [] then Inl IndexError
                      else enforce_spacing smooth min_dist rest (butlast peaks @ [idx], idx))
                else enforce_spacing smooth min_dist rest (peaks, last_idx))))"

text \<open>
  The smoothed signal is at least as long as the signal, so the reads at \<open>i - 1\<close>,
  \<open>i\<close> and \<open>i + 1\<close> for \<open>i\<close> in \<^verbatim>\<open>range(1, n - 1)\<close> are in range.
\<close>

definition smooth_signal :: "real list \<Rightarrow> real \<Rightarrow> real list" where
  "smooth_signal signal fs =
     (let window = max 3 (py_int (0.05 * fs))
      in if 1 < window
         then convolve_same signal (replicate (nat window) (1 / real_of_int window))
         else signal)"

definition find_candidates :: "real list \<Rightarrow> real \<Rightarrow> nat \<Rightarrow> int list" where
  "find_candidates smooth thresh n =
     map int (filter (\<lambda>i. thresh < smooth ! i \<and> smooth ! (i - 1) \<le> smooth ! i \<and>
                           smooth ! (i + 1) \<le> smooth ! i)
                     [1..<n - 1])"

definition smooth_and_detect_peaks ::
  "real list \<Rightarrow> real \<Rightarrow> real \<Rightarrow> real \<Rightarrow> error + int list" where
  "smooth_and_detect_peaks signal fs thresh_factor min_distance_sec =
     (let n = length signal in
      if n < 3 then Inr []
      else
        let smooth = smooth_signal signal fs;
            mean = np_mean smooth;
            std = (if np_std smooth = 0 then 1 else np_std smooth);
            thresh = mean + thresh_factor * std;
            candidates = find_candidates smooth thresh n
        in
          if candidates = [] then Inr []
          else
            let min_dist = py_int (min_distance_sec * fs)
            in enforce_spacing smooth min_dist candidates ([], - min_dist))"

subsection \<open>Window Segmenter: \<^verbatim>\<open>segment_around_peaks\<close>\<close>

text \<open>
  \<^verbatim>\<open>data6[start:end, :]\<close> for \<open>0 \<le> start\<close> and \<open>0 \<le> end\<close> (the loop only slices
  with \<open>0 \<le> start < end \<le> n\<close>).
\<close>

definition slice_rows :: "array2 \<Rightarrow> int \<Rightarrow> int \<Rightarrow> array2" where
  "slice_rows a start stop =
     \<lparr>ncols = ncols a, rows = take (nat (stop - start)) (drop (nat start) (rows a))\<rparr>"

fun segment_loop :: "array2 \<Rightarrow> int \<Rightarrow> int \<Rightarrow> int list \<Rightarrow> array2 list \<Rightarrow> array2 list" where
  "segment_loop data6 pre post [] segments = segments"
| "segment_loop data6 pre post (p # ps) segments =
     (let start = max 0 (p - pre);
          stop = min (int (nrows data6)) (p + post)
      in if stop \<le> start then segment_loop data6 pre post ps segments
         else segment_loop data6 pre post ps (segments @ [slice_rows data6 start stop]))"

text \<open>
  The sample counts \<^verbatim>\<open>int(pre_sec * fs)\<close> and \<^verbatim>\<open>int(post_sec * fs)\<close> truncate a
  product of doubles, which is the real product rounded to a double. The rounding is an
  argument of the model, \<open>fl\<close>: Python's \<^verbatim>\<open>pre_sec * fs\<close> is \<open>fl (pre_sec * fs)\<close>. The
  statements about the segmenter hold for every rounding.
\<close>

definition segment_around_peaks ::
  "(real \<Rightarrow> real) \<Rightarrow> array2 \<Rightarrow> int list \<Rightarrow> real \<Rightarrow> real \<Rightarrow> real \<Rightarrow> error + array2 list" where
  "segment_around_peaks fl data6 peaks fs pre_sec post_sec =
     (if ncols data6 \<noteq> 6 then Inl ChannelAssertion
      else
        let pre = py_int (fl (pre_sec * fs));
            post = py_int (fl (post_sec * fs))
        in Inr (segment_loop data6 pre post peaks []))"

subsection \<open>Synthetic Augmentor: \<^verbatim>\<open>pad_or_truncate\<close> and \<^verbatim>\<open>augment_sample\<close>\<close>

definition FIXED_LENGTH :: nat where
  "FIXED_LENGTH = 128"

definition pad_or_truncate :: "array2 \<Rightarrow> nat \<Rightarrow> array2" where
  "pad_or_truncate sample len =
     (let t = nrows sample; d = ncols sample in
      if t = len then sample
      else if len < t then \<lparr>ncols = d, rows = take len (rows sample)\<rparr>
      else \<lparr>ncols = d, rows = rows sample @ replicate (len - t) (replicate d 0)\<rparr>)"

text \<open>
  The random draws of \<^verbatim>\<open>augment_sample\<close> are arguments of the model: \<open>noise i j\<close> is
  the Gaussian draw for row \<open>i\<close> and channel \<open>j\<close>, \<open>gains j\<close> the gain of channel \<open>j\<close>
  and \<open>scale\<close> the time-scaling factor. \<open>warp_sample\<close> is the body of
  \<^verbatim>\<open>augment_sample\<close> up to and including the array \<^verbatim>\<open>aug_scaled\<close>;
  \<open>augment_sample\<close> then applies the final \<^verbatim>\<open>pad_or_truncate\<close>.
\<close>

definition warp_sample ::
  "(nat \<Rightarrow> nat \<Rightarrow> real) \<Rightarrow> (nat \<Rightarrow> real) \<Rightarrow> real \<Rightarrow> array2 \<Rightarrow> error + array2" where
  "warp_sample noise gains scale sample =
     (let aug = \<lparr>ncols = ncols sample,
                 rows = map (\<lambda>i. map (\<lambda>j. (rows sample ! i ! j + noise i j) * gains j)
                                     [0..<length (rows sample ! i)])
                            [0..<nrows sample]\<rparr>;
          t = int (nrows aug);
          new_t = (if py_int (real_of_int t * scale) < 2 then 2 else py_int (real_of_int t * scale))
      in
        (case linspace 0 (real_of_int (t - 1)) t of
           Inl e \<Rightarrow> Inl e
         | Inr orig_idx \<Rightarrow>
            (case linspace 0 (real_of_int (t - 1)) new_t of
               Inl e \<Rightarrow> Inl e
             | Inr new_idx \<Rightarrow> interp_columns new_idx orig_idx aug)))"

definition augment_sample ::
  "(nat \<Rightarrow> nat \<Rightarrow> real) \<Rightarrow> (nat \<Rightarrow> real) \<Rightarrow> real \<Rightarrow> array2 \<Rightarrow> error + array2" where
  "augment_sample noise gains scale sample =
     (case warp_sample noise gains scale sample of
        Inl e \<Rightarrow> Inl e
      | Inr aug_scaled \<Rightarrow> Inr (pad_or_truncate aug_scaled FIXED_LENGTH))"

subsection \<open>Segment files: \<^verbatim>\<open>next_index_for_class\<close> and the two writing loops\<close>

definition SEGMENT_SAMPLES :: int where
  "SEGMENT_SAMPLES = 100"

text \<open>
  The format \<^verbatim>\<open>{idx:03d}\<close>: the decimal digits of the integer, padded with zeros on
  the left to a width of three, the sign of a negative number counting for the width.
\<close>

fun dec_digits :: "nat \<Rightarrow> string" where
  "dec_digits n =
     (if n < 10 then [char_of (48 + n)]
      else dec_digits (n div 10) @ [char_of (48 + n mod 10)])"

declare dec_digits.simps [simp del]

definition format_03d :: "int \<Rightarrow> string" where
  "format_03d i =
     (if i < 0
      then CHR ''-'' # replicate (2 - length (dec_digits (nat (- i)))) CHR ''0''
                     @ dec_digits (nat (- i))
      else replicate (3 - length (dec_digits (nat i))) CHR ''0'' @ dec_digits (nat i))"

definition segment_name :: "string \<Rightarrow> int \<Rightarrow> string" where
  "segment_name label idx = label @ ''_'' @ format_03d idx @ ''.csv''"

text \<open>
  \<^verbatim>\<open>int(s)\<close> on an ASCII string: surrounding whitespace (space, tab, line feed,
  vertical tab, form feed, carriage return) is stripped, an optional sign follows, then
  at least one decimal digit and nothing else. (Python also accepts an underscore between
  digits; the strings parsed here come out of a split at underscores and contain none.)
\<close>

definition is_space :: "char \<Rightarrow> bool" where
  "is_space c = (of_char c \<in> {9, 10, 11, 12, 13, 32 :: nat})"

definition strip :: "string \<Rightarrow> string" where
  "strip s = rev (dropWhile is_space (rev (dropWhile is_space s)))"

definition is_digit :: "char \<Rightarrow> bool" where
  "is_digit c = (48 \<le> (of_char c :: nat) \<and> (of_char c :: nat) \<le> 57)"

definition digits_value :: "string \<Rightarrow> nat" where
  "digits_value s = foldl (\<lambda>a c. 10 * a + (of_char c - 48)) 0 s"

definition parse_digits :: "string \<Rightarrow> nat option" where
  "parse_digits s = (if s \<noteq> [] \<and> list_all is_digit s then Some (digits_value s) else None)"

definition py_int_of_string :: "string \<Rightarrow> int option" where
  "py_int_of_string s =
     (case strip s of
        [] \<Rightarrow> None
      | c # cs \<Rightarrow>
         if c = CHR ''-'' then map_option (\<lambda>n. - int n) (parse_digits cs)
         else if c = CHR ''+'' then map_option int (parse_digits cs)
         else map_option int (parse_digits (c # cs)))"

text \<open>\<^verbatim>\<open>s.split(sep)\<close> for a one-character separator.\<close>

fun split_on :: "char \<Rightarrow> string \<Rightarrow> string list" where
  "split_on sep [] = [[]]"
| "split_on sep (c # cs) =
     (if c = sep then [] # split_on sep cs
      else (case split_on sep cs of
              [] \<Rightarrow> [[c]]
            | p # ps \<Rightarrow> (c # p) # ps))"

text \<open>
  \<^verbatim>\<open>class_dir.glob(f"{class_name}_*.csv")\<close> matches the names of the directory
  against the pattern, in which the class name takes part: \<open>*\<close> stands for any run of
  characters, \<open>?\<close> for one character, and \<open>[...]\<close> for one character of a class (single
  characters and ranges \<open>a-b\<close>, negated by a leading \<open>!\<close>; a \<open>]\<close> in first place belongs
  to the class; a \<open>[\<close> that is never closed stands for itself). Every other character
  stands for itself, and the match is case-sensitive. \<open>find_close\<close> gives the position of
  the bracket that closes a class, in the text after the opening one.
\<close>

definition find_close :: "string \<Rightarrow> nat option" where
  "find_close s =
     (let j1 = (if s \<noteq> [] \<and> hd s = CHR ''!'' then 1 else 0);
          j2 = (if j1 < length s \<and> s ! j1 = CHR '']'' then j1 + 1 else j1);
          k = length (takeWhile (\<lambda>c. c \<noteq> CHR '']'') (drop j2 s))
      in if j2 + k < length s then Some (j2 + k) else None)"

fun class_items :: "string \<Rightarrow> (char \<times> char) list" where
  "class_items (a # m # b # cs) =
     (if m = CHR ''-'' then (a, b) # class_items cs else (a, a) # class_items (m # b # cs))"
| "class_items (a # cs) = (a, a) # class_items cs"
| "class_items [] = []"

definition in_class :: "string \<Rightarrow> char \<Rightarrow> bool" where
  "in_class body c =
     (let neg = (body \<noteq> [] \<and> hd body = CHR ''!'');
          hit = list_ex (\<lambda>(lo, hi). (of_char lo :: nat) \<le> of_char c \<and> (of_char c :: nat) \<le> of_char hi)
                  (class_items (if neg then tl body else body))
      in if neg then \<not> hit else hit)"

function glob_matches :: "string \<Rightarrow> string \<Rightarrow> bool" where
  "glob_matches [] s = (s = [])"
| "glob_matches (p # ps) s =
     (if p = CHR ''*''
      then (if glob_matches ps s then True
            else if s = [] then False else glob_matches (p # ps) (tl s))
      else if s = [] then False
      else if p = CHR ''?'' then glob_matches ps (tl s)
      else if p = CHR ''[''
      then (case find_close ps of
              None \<Rightarrow> if hd s = p then glob_matches ps (tl s) else False
            | Some j \<Rightarrow> if in_class (take j ps) (hd s)
                        then glob_matches (drop (Suc j) ps) (tl s) else False)
      else if hd s = p then glob_matches ps (tl s) else False)"
  by pat_completeness auto
termination
  by (relation "measure (\<lambda>(p, s). 2 * length p + length s)") auto

declare glob_matches.simps [simp del]

definition glob_match :: "string \<Rightarrow> string \<Rightarrow> bool" where
  "glob_match class_name name = glob_matches (class_name @ ''_*.csv'') name"

text \<open>
  A plain label has none of the characters that the pattern, the split at underscores or
  the path give a meaning to. The class labels of the repository are plain.
\<close>

definition plain_label :: "string \<Rightarrow> bool" where
  "plain_label label = list_all (\<lambda>c. c \<notin> set ''_*?[/'') label"

text \<open>
  The \<^verbatim>\<open>stem\<close> of a name that ends with \<open>.csv\<close> is the name without its last four
  characters.
\<close>

definition stem :: "string \<Rightarrow> string" where
  "stem name = take (length name - 4) name"

definition file_index :: "string \<Rightarrow> int option" where
  "file_index name =
     (let parts = split_on CHR ''_'' (stem name)
      in if length parts \<noteq> 2 then None else py_int_of_string (parts ! 1))"

definition next_index_for_class :: "string \<Rightarrow> string list \<Rightarrow> int" where
  "next_index_for_class class_name names =
     foldl (\<lambda>max_idx name.
              case file_index name of
                None \<Rightarrow> max_idx
              | Some idx \<Rightarrow> if max_idx < idx then idx else max_idx)
           0 (filter (glob_match class_name) names) + 1"

text \<open>
  The class directory is the list of its files, name and content; writing a file
  replaces the content of an existing name and adds a new name otherwise.
  \<open>write_segments\<close> is the body shared by the writing loops of
  \<^verbatim>\<open>process_class\<close> (whose index comes from \<^verbatim>\<open>enumerate(segments, start=1)\<close>) and
  of \<^verbatim>\<open>process_new_folder\<close> (whose index starts at \<^verbatim>\<open>next_index_for_class(label)\<close>):
  each segment is normalised to \<open>SEGMENT_SAMPLES\<close> rows and written under the name of
  the current index. An exception leaves the files written so far. The models of
  \<^verbatim>\<open>process_class\<close> and \<^verbatim>\<open>process_new_folder\<close> start from the segments that
  \<^verbatim>\<open>segment_around_peaks\<close> returned and from the content of the class directory.
\<close>

type_synonym directory = "(string \<times> array2) list"

definition write_file :: "string \<Rightarrow> array2 \<Rightarrow> directory \<Rightarrow> directory" where
  "write_file name content dir =
     (if name \<in> fst ` set dir
      then map (\<lambda>(n, c). if n = name then (n, content) else (n, c)) dir
      else dir @ [(name, content)])"

fun write_segments ::
  "string \<Rightarrow> array2 list \<Rightarrow> int \<Rightarrow> nat \<Rightarrow> directory \<Rightarrow> directory \<times> (error + nat)" where
  "write_segments label [] idx count dir = (dir, Inr count)"
| "write_segments label (seg # segs) idx count dir =
     (case to_fixed_length seg SEGMENT_SAMPLES of
        Inl e \<Rightarrow> (dir, Inl e)
      | Inr fixed \<Rightarrow>
          write_segments label segs (idx + 1) (count + 1)
            (write_file (segment_name label idx) fixed dir))"

definition process_class :: "string \<Rightarrow> array2 list \<Rightarrow> directory \<Rightarrow> directory \<times> (error + nat)" where
  "process_class class_name segments dir = write_segments class_name segments 1 0 dir"

definition process_new_folder ::
  "string \<Rightarrow> array2 list \<Rightarrow> directory \<Rightarrow> directory \<times> (error + nat)" where
  "process_new_folder label segments dir =
     (let next_idx = next_index_for_class label (map fst dir)
      in write_segments label segments next_idx 0 dir)"

subsection \<open>Signals used in the statements\<close>

text \<open>
  A plateau: \<open>a\<close> zeros, then \<open>w\<close> samples of value \<open>c\<close>, then \<open>b\<close> zeros. It is
  what the moving average makes of a single spike.
\<close>

definition plateau :: "nat \<Rightarrow> nat \<Rightarrow> nat \<Rightarrow> real \<Rightarrow> real list" where
  "plateau a w b c = replicate a 0 @ replicate w c @ replicate b 0"

text \<open>A two-row segment of ones.\<close>

definition ones2 :: array2 where
  "ones2 = \<lparr>ncols = 6, rows = [[1,1,1,1,1,1],[1,1,1,1,1,1]]\<rparr>"

text \<open>Two segments of the final shape \<open>(100, 6)\<close>.\<close>

definition ones100 :: array2 where
  "ones100 = \<lparr>ncols = 6, rows = replicate 100 [1, 1, 1, 1, 1, 1]\<rparr>"

definition zeros100 :: array2 where
  "zeros100 = \<lparr>ncols = 6, rows = replicate 100 [0, 0, 0, 0, 0, 0]\<rparr>"

section \<open>Properties\<close>

subsection \<open>Shapes of the primitives\<close>

lemma length_arange: "length (arange start stop step) = arange_len start stop step"
  by (simp add: arange_def)

lemma length_linspace:
  "linspace start stop num = Inr xs \<Longrightarrow> int (length xs) = num"
  by (auto simp: linspace_def split: if_splits)

lemma interp_columns_shape:
  assumes "interp_columns new_x old_x a = Inr b"
  shows "ncols b = ncols a" and "nrows b = length new_x" and "wf_array b"
  using assms
  by (auto simp: interp_columns_def nrows_def wf_array_def list_all_iff split: if_splits)

lemma to_fixed_length_shape:
  assumes "to_fixed_length seg L = Inr r"
  shows "ncols r = 6 \<and> int (nrows r) = L"
proof (cases "ncols seg = 6 \<and> int (nrows seg) \<noteq> L")
  case False
  with assms show ?thesis
    by (auto simp: to_fixed_length_def Let_def split: if_splits)
next
  case True
  with assms obtain old_x new_x where
    new: "linspace 0 1 L = Inr new_x" and
    res: "interp_columns new_x old_x seg = Inr r"
    by (auto simp: to_fixed_length_def Let_def split: sum.splits)
  from interp_columns_shape(1,2)[OF res] length_linspace[OF new] True
  show ?thesis by simp
qed

subsection \<open>Cleaning a trace\<close>

lemma mask_from_times:
  "sorted (prev # map fst ps) \<Longrightarrow>
     sorted_wrt (<) (prev # map fst (mask_from prev ps)) \<and>
     insert prev (set (map fst (mask_from prev ps))) = insert prev (set (map fst ps))"
proof (induction ps arbitrary: prev)
  case Nil
  then show ?case by simp
next
  case (Cons q qs)
  from Cons.prems have le: "prev \<le> fst q" and srt: "sorted (fst q # map fst qs)"
    by simp_all
  from Cons.IH[OF srt]
  have ih1: "sorted_wrt (<) (fst q # map fst (mask_from (fst q) qs))"
    and ih2: "insert (fst q) (set (map fst (mask_from (fst q) qs))) =
              insert (fst q) (set (map fst qs))"
    by blast+
  show ?case
  proof (cases "prev < fst q")
    case True
    from ih1 have "\<forall>x\<in>set (map fst (mask_from (fst q) qs)). fst q < x" by simp
    with True have "\<forall>x\<in>set (map fst (mask_from (fst q) qs)). prev < x" by fastforce
    with True ih1 have a: "sorted_wrt (<) (prev # map fst (mask_from prev (q # qs)))"
      by simp
    from ih2 have "insert prev (insert (fst q) (set (map fst (mask_from (fst q) qs)))) =
        insert prev (insert (fst q) (set (map fst qs)))" by simp
    with True have b: "insert prev (set (map fst (mask_from prev (q # qs)))) =
        insert prev (set (map fst (q # qs)))" by simp
    from a b show ?thesis by blast
  next
    case False
    with le have eq: "fst q = prev" by simp
    from ih1 eq have a: "sorted_wrt (<) (prev # map fst (mask_from prev (q # qs)))"
      by simp
    from ih2 eq have b: "insert prev (set (map fst (mask_from prev (q # qs)))) =
        insert prev (set (map fst (q # qs)))" by simp
    from a b show ?thesis by blast
  qed
qed

lemma drop_repeats_times:
  "sorted (map fst ps) \<Longrightarrow>
     sorted_wrt (<) (map fst (drop_repeats ps)) \<and>
     set (map fst (drop_repeats ps)) = set (map fst ps)"
proof (cases ps)
  case Nil
  then show ?thesis by simp
next
  case (Cons p qs)
  assume "sorted (map fst ps)"
  with Cons have "sorted (fst p # map fst qs)" by simp
  from mask_from_times[OF this] Cons show ?thesis by simp
qed

lemma cleaned_times_sorted_list:
  assumes "nrows xyz = length t"
  shows "cleaned_times t xyz = sorted_list_of_set (set t)"
proof -
  let ?ps = "sort_key fst (zip t (rows xyz))"
  have srt: "sorted (map fst ?ps)" by (rule sorted_sort_key)
  have "set (map fst ?ps) = set (map fst (zip t (rows xyz)))" by simp
  also have "\<dots> = set t" using assms by (simp add: nrows_def)
  finally have st: "set (map fst ?ps) = set t" .
  from drop_repeats_times[OF srt] st
  have "sorted_wrt (<) (cleaned_times t xyz)" and "set (cleaned_times t xyz) = set t"
    by (simp_all add: cleaned_times_def clean_trace_def)
  then show ?thesis
    by (metis sorted_list_of_set.idem_if_sorted_distinct strict_sorted_iff)
qed


lemma cleaned_times_Nil_iff:
  assumes "nrows xyz = length t"
  shows "cleaned_times t xyz = [] \<longleftrightarrow> t = []"
  using cleaned_times_sorted_list[OF assms] by (auto simp: sorted_list_of_set.sorted_key_list_of_set_eq_Nil_iff)

lemma length_cleaned_times:
  assumes "nrows xyz = length t"
  shows "length (cleaned_times t xyz) = card (set t)"
  using cleaned_times_sorted_list[OF assms] by simp



lemma sorted_hd_Min: "sorted (xs :: real list) \<Longrightarrow> xs \<noteq> [] \<Longrightarrow> hd xs = Min (set xs)"
  by (cases xs) (auto intro!: Min_eqI[symmetric])

lemma sorted_le_last: "sorted (xs :: real list) \<Longrightarrow> x \<in> set xs \<Longrightarrow> x \<le> last xs"
  by (induction xs) auto

lemma sorted_last_Max: "sorted (xs :: real list) \<Longrightarrow> xs \<noteq> [] \<Longrightarrow> last xs = Max (set xs)"
  by (auto intro!: Max_eqI[symmetric] sorted_le_last)

lemma cleaned_times_span:
  assumes "nrows xyz = length t" and "t \<noteq> []"
  shows "cleaned_times t xyz \<noteq> []"
    and "hd (cleaned_times t xyz) = Min (set t)"
    and "last (cleaned_times t xyz) = Max (set t)"
    and "hd (cleaned_times t xyz) \<le> last (cleaned_times t xyz)"
proof -
  let ?ts = "cleaned_times t xyz"
  have eq: "?ts = sorted_list_of_set (set t)" by (rule cleaned_times_sorted_list[OF assms(1)])
  then have s: "sorted ?ts" and st: "set ?ts = set t" by simp_all
  from st assms(2) show ne: "?ts \<noteq> []" by auto
  from sorted_hd_Min[OF s ne] st show "hd ?ts = Min (set t)" by simp
  from sorted_last_Max[OF s ne] st show "last ?ts = Max (set t)" by simp
  from sorted_le_last[OF s] ne show "hd ?ts \<le> last ?ts" by simp
qed

subsection \<open>Grids\<close>

lemma arange_nth:
  "i < arange_len start stop step \<Longrightarrow> arange start stop step ! i = start + real i * step"
  by (simp add: arange_def)

lemma arange_Nil_iff: "arange start stop step = [] \<longleftrightarrow> arange_len start stop step = 0"
  by (simp add: arange_def)

lemma hd_arange:
  "0 < arange_len start stop step \<Longrightarrow> hd (arange start stop step) = start"
  by (simp add: arange_def hd_map upt_conv_Cons hd_upt)

lemma last_arange:
  "0 < arange_len start stop step \<Longrightarrow>
     last (arange start stop step) = start + real (arange_len start stop step - 1) * step"
  by (simp add: arange_def last_map)

lemma arange_bounds:
  assumes "0 < step" and "g \<in> set (arange start stop step)"
  shows "start \<le> g \<and> g < stop"
proof -
  from assms(2) obtain i where i: "i < arange_len start stop step" and g: "g = start + real i * step"
    by (auto simp: arange_def)
  from i have "int i < \<lceil>(stop - start) / step\<rceil>"
    by (simp add: arange_len_def zless_nat_eq_int_zless)
  then have "real i < (stop - start) / step"
    by (simp add: less_ceiling_iff)
  with assms(1) have "real i * step < stop - start"
    by (simp add: pos_less_divide_eq)
  moreover from assms(1) have "0 \<le> real i * step" by simp
  ultimately show ?thesis using g by simp
qed

lemma grid_len:
  assumes "0 < fs" and "t_min \<le> t_max"
  shows "int (arange_len t_min (t_max + 0.5 * (1 / fs)) (1 / fs))
           = \<lceil>(t_max - t_min) / (1 / fs) + 1 / 2\<rceil>"
    and "0 < arange_len t_min (t_max + 0.5 * (1 / fs)) (1 / fs)"
proof -
  from assms(1) have eq: "(t_max + 0.5 * (1 / fs) - t_min) / (1 / fs) = (t_max - t_min) / (1 / fs) + 1 / 2"
    by (simp add: field_simps)
  from assms have "0 \<le> (t_max - t_min) / (1 / fs)" by simp
  then have "0 < (t_max - t_min) / (1 / fs) + 1 / 2" by linarith
  then have pos: "0 < \<lceil>(t_max - t_min) / (1 / fs) + 1 / 2\<rceil>"
    by (simp add: less_ceiling_iff)
  from pos eq show "int (arange_len t_min (t_max + 0.5 * (1 / fs)) (1 / fs))
           = \<lceil>(t_max - t_min) / (1 / fs) + 1 / 2\<rceil>"
    by (simp add: arange_len_def)
  from pos eq show "0 < arange_len t_min (t_max + 0.5 * (1 / fs)) (1 / fs)"
    by (simp add: arange_len_def)
qed




lemma resample_to_grid_ok:
  assumes "nrows xyz = length t" and "fs \<noteq> 0" and "cleaned_times t xyz \<noteq> []"
  shows "\<exists>out. resample_to_grid t xyz fs =
            Inr (arange (hd (cleaned_times t xyz))
                        (last (cleaned_times t xyz) + 0.5 * (1 / fs)) (1 / fs), out) \<and>
           ncols out = ncols xyz \<and>
           nrows out = arange_len (hd (cleaned_times t xyz))
                        (last (cleaned_times t xyz) + 0.5 * (1 / fs)) (1 / fs) \<and>
           wf_array out"
  using assms
  by (simp add: resample_to_grid_def cleaned_times_def Let_def interp_columns_def
      nrows_def wf_array_def list_all_iff length_arange)

text \<open>The grid of a non-empty trace at a positive rate.\<close>

lemma resample_to_grid_grid:
  assumes "nrows xyz = length t" and "t \<noteq> []" and "0 < fs"
  shows "\<exists>grid out. resample_to_grid t xyz fs = Inr (grid, out) \<and>
           grid \<noteq> [] \<and> hd grid = Min (set t) \<and>
           last grid < Max (set t) + (1 / fs) / 2 \<and>
           (Max (set t) - Min (set t) < (1 / fs) / 2 \<longrightarrow> last grid = Min (set t)) \<and>
           ncols out = ncols xyz"
proof -
  let ?lo = "Min (set t)" and ?hi = "Max (set t)"
  let ?grid = "arange ?lo (?hi + 0.5 * (1 / fs)) (1 / fs)"
  note sp = cleaned_times_span[OF assms(1,2)]
  from assms(3) have fs: "fs \<noteq> 0" and dt: "0 < 1 / fs" by simp_all
  from sp(4) have le: "?lo \<le> ?hi" by (simp add: sp(2,3))
  from resample_to_grid_ok[OF assms(1) fs sp(1)] obtain out where
    r: "resample_to_grid t xyz fs = Inr (?grid, out)" and nc: "ncols out = ncols xyz"
    by (auto simp: sp(2,3))
  note gl = grid_len[OF assms(3) le]
  from gl(2) have ne: "?grid \<noteq> []" by (simp add: arange_Nil_iff)
  have h: "hd ?grid = ?lo" by (rule hd_arange[OF gl(2)])
  from ne have "last ?grid \<in> set ?grid" by simp
  from arange_bounds[OF dt this] have u: "last ?grid < ?hi + (1 / fs) / 2" by simp
  have one: "?hi - ?lo < (1 / fs) / 2 \<longrightarrow> last ?grid = ?lo"
  proof
    assume "?hi - ?lo < (1 / fs) / 2"
    with assms(3) have "(?hi - ?lo) / (1 / fs) < 1 / 2" by (simp add: field_simps)
    then have "(?hi - ?lo) / (1 / fs) + 1 / 2 \<le> 1" by simp
    then have "\<lceil>(?hi - ?lo) / (1 / fs) + 1 / 2\<rceil> \<le> 1" by (simp add: ceiling_le_iff)
    with gl have "arange_len ?lo (?hi + 0.5 * (1 / fs)) (1 / fs) = 1" by linarith
    then show "last ?grid = ?lo" by (simp add: last_arange)
  qed
  from r ne h u one nc show ?thesis by blast
qed

subsection \<open>Grid Resampler\<close>

text \<open>
  Claim C2, as the code has it. The source has no guard for a trace with fewer than two
  distinct timestamps and no InsufficientData error. For a trace whose cleaned timestamp
  sequence has fewer than two timestamps, at a rate \<open>fs \<noteq> 0\<close>: the resampler
  fails only when the trace is empty, and then with an IndexError (reading \<^verbatim>\<open>t[0]\<close>);
  when exactly one timestamp remains it returns a signal whose grid is that single
  timestamp and whose matrix has one row.
\<close>

theorem resample_single_timestamp:
  assumes "nrows xyz = length t" and "fs \<noteq> 0" and "length (cleaned_times t xyz) < 2"
  shows "(t = [] \<longrightarrow> resample_to_grid t xyz fs = Inl IndexError) \<and>
         (t \<noteq> [] \<longrightarrow> (\<exists>out. resample_to_grid t xyz fs = Inr ([hd t], out) \<and>
                          nrows out = 1 \<and> ncols out = ncols xyz))"
proof (intro conjI impI)
  assume "t = []"
  with assms(1,2) show "resample_to_grid t xyz fs = Inl IndexError"
    by (simp add: resample_to_grid_def clean_trace_def nrows_def)
next
  assume ne: "t \<noteq> []"
  let ?ts = "cleaned_times t xyz"
  from ne cleaned_times_Nil_iff[OF assms(1)] have cne: "?ts \<noteq> []" by simp
  with assms(3) have l1: "length ?ts = 1" by (cases ?ts) auto
  then obtain t0 where t0: "?ts = [t0]" by (cases ?ts) auto
  with cleaned_times_sorted_list[OF assms(1)] have "set t = {t0}"
    by (metis ne empty_set list.simps(15) set_sorted_list_of_set List.finite_set)
  with ne have hd: "hd t = t0" by (cases t) auto
  have half: "\<lceil>1 / 2 :: real\<rceil> = 1" by (simp add: ceiling_eq_iff)
  from assms(2) have "(t0 + 0.5 * (1 / fs) - t0) / (1 / fs) = 1 / 2" by simp
  then have "arange_len t0 (t0 + 0.5 * (1 / fs)) (1 / fs) = nat \<lceil>1 / 2 :: real\<rceil>"
    unfolding arange_len_def by (rule arg_cong)
  with half have al: "arange_len t0 (t0 + 0.5 * (1 / fs)) (1 / fs) = 1"
    by simp
  then have "arange t0 (t0 + 0.5 * (1 / fs)) (1 / fs) = [t0]"
    by (simp add: arange_def)
  with resample_to_grid_ok[OF assms(1,2) cne] t0 hd al
  show "\<exists>out. resample_to_grid t xyz fs = Inr ([hd t], out) \<and>
                          nrows out = 1 \<and> ncols out = ncols xyz"
    by auto
qed

theorem resample_single_timestamp_witness:
  "length (cleaned_times [5, 5, 5] \<lparr>ncols = 3, rows = [[1,2,3],[4,5,6],[7,8,9]]\<rparr>) < 2 \<and>
   (\<exists>out. resample_to_grid [5, 5, 5] \<lparr>ncols = 3, rows = [[1,2,3],[4,5,6],[7,8,9]]\<rparr> 100 = Inr ([5], out) \<and> nrows out = 1 \<and> ncols out = 3) \<and>
   resample_to_grid [] \<lparr>ncols = 3, rows = []\<rparr> 100 = Inl IndexError"
proof -
  have a: "nrows \<lparr>ncols = 3, rows = [[1,2,3],[4,5,6],[7,8,9]]\<rparr> = length [5, 5, 5 :: real]" by (simp add: nrows_def)
  have b: "(100 :: real) \<noteq> 0" by simp
  have c: "length (cleaned_times [5, 5, 5] \<lparr>ncols = 3, rows = [[1,2,3],[4,5,6],[7,8,9]]\<rparr>) < 2"
    by (simp add: cleaned_times_def clean_trace_def)
  have a': "nrows \<lparr>ncols = 3, rows = []\<rparr> = length ([] :: real list)" by (simp add: nrows_def)
  have c': "length (cleaned_times [] \<lparr>ncols = 3, rows = []\<rparr>) < 2"
    by (simp add: cleaned_times_def clean_trace_def)
  from resample_single_timestamp[OF a b c] resample_single_timestamp[OF a' b c'] c
  show ?thesis by simp
qed

text \<open>
  A trace with one sample has fewer than two distinct timestamps, and the resampler
  returns a one-row signal for it instead of failing.
\<close>

theorem resample_single_timestamp_counterexample:
  "length (cleaned_times [0] \<lparr>ncols = 3, rows = [[1,2,3]]\<rparr>) < 2 \<and>
   resample_to_grid [0] \<lparr>ncols = 3, rows = [[1,2,3]]\<rparr> 100 = Inr ([0], \<lparr>ncols = 3, rows = [[1,2,3]]\<rparr>)"
  by (simp add: cleaned_times_def resample_to_grid_def nrows_def clean_trace_def arange_def arange_len_def
      interp_columns_def interp_at_def column_def upt_rec)







subsection \<open>Dual-Sensor Merger\<close>

text \<open>
  Claim C8. For two non-empty loaded traces of three channels each and \<open>fs > 0\<close>, both
  are resampled, to grids \<open>ta\<close> and \<open>tg\<close>, and \<open>build_common_six_axis\<close> fails with
  NoOverlap exactly when the common window is empty or inverted, that is when
  \<open>min (last ta) (last tg) \<le> max (hd ta) (hd tg)\<close>; otherwise it returns a six-channel
  signal with one row per grid point. In particular an accelerometer trace spanning
  \<open>[0, 1]\<close> with a gyroscope trace spanning \<open>[2, 3]\<close> fails with NoOverlap.
\<close>

theorem build_common_six_axis_no_overlap:
  assumes "nrows acc = length t_acc" and "nrows gyr = length t_gyr"
    and "ncols acc = 3" and "ncols gyr = 3"
    and "t_acc \<noteq> []" and "t_gyr \<noteq> []" and "0 < fs"
  shows "\<exists>ta acc_g tg gyr_g.
           resample_to_grid t_acc acc fs = Inr (ta, acc_g) \<and>
           resample_to_grid t_gyr gyr fs = Inr (tg, gyr_g) \<and>
           (build_common_six_axis t_acc acc t_gyr gyr fs = Inl NoOverlap
              \<longleftrightarrow> min (last ta) (last tg) \<le> max (hd ta) (hd tg)) \<and>
           (max (hd ta) (hd tg) < min (last ta) (last tg) \<longrightarrow>
              (\<exists>t_grid data6.
                  build_common_six_axis t_acc acc t_gyr gyr fs = Inr (t_grid, data6) \<and>
                  ncols data6 = 6 \<and> wf_array data6 \<and> nrows data6 = length t_grid)) \<and>
           (Min (set t_acc) = 0 \<and> Max (set t_acc) = 1 \<and>
            Min (set t_gyr) = 2 \<and> Max (set t_gyr) = 3 \<longrightarrow>
              build_common_six_axis t_acc acc t_gyr gyr fs = Inl NoOverlap)"
proof -
  from resample_to_grid_grid[OF assms(1,5,7)] obtain ta acc_g where
    ra: "resample_to_grid t_acc acc fs = Inr (ta, acc_g)" and ta: "ta \<noteq> []"
    and ha: "hd ta = Min (set t_acc)"
    and la: "last ta < Max (set t_acc) + (1 / fs) / 2"
    and sa: "Max (set t_acc) - Min (set t_acc) < (1 / fs) / 2 \<longrightarrow> last ta = Min (set t_acc)"
    and ca: "ncols acc_g = ncols acc" by blast
  from resample_to_grid_grid[OF assms(2,6,7)] obtain tg gyr_g where
    rg: "resample_to_grid t_gyr gyr fs = Inr (tg, gyr_g)" and tg: "tg \<noteq> []"
    and hg: "hd tg = Min (set t_gyr)"
    and cg: "ncols gyr_g = ncols gyr" by blast
  let ?s = "max (hd ta) (hd tg)" and ?e = "min (last ta) (last tg)"
  have iff: "build_common_six_axis t_acc acc t_gyr gyr fs = Inl NoOverlap \<longleftrightarrow> ?e \<le> ?s"
  proof (cases "?e \<le> ?s")
    case True
    with ta tg show ?thesis
      by (simp add: build_common_six_axis_def ra rg Let_def del: min_le_iff_disj le_max_iff_disj min_less_iff_disj less_max_iff_disj max_less_iff_conj min_less_iff_conj)
  next
    case False
    with ta tg ca cg assms(3,4) show ?thesis
      by (simp add: build_common_six_axis_def ra rg Let_def del: min_le_iff_disj le_max_iff_disj min_less_iff_disj less_max_iff_disj max_less_iff_conj min_less_iff_conj)
  qed
  have ok: "?s < ?e \<longrightarrow> (\<exists>t_grid data6.
                  build_common_six_axis t_acc acc t_gyr gyr fs = Inr (t_grid, data6) \<and>
                  ncols data6 = 6 \<and> wf_array data6 \<and> nrows data6 = length t_grid)"
  proof
    assume "?s < ?e"
    then have "\<not> ?e \<le> ?s" by linarith
    with ta tg ca cg assms(3,4) show "\<exists>t_grid data6.
                  build_common_six_axis t_acc acc t_gyr gyr fs = Inr (t_grid, data6) \<and>
                  ncols data6 = 6 \<and> wf_array data6 \<and> nrows data6 = length t_grid"
      by (simp add: build_common_six_axis_def ra rg Let_def wf_array_def nrows_def list_all_iff
          del: min_le_iff_disj le_max_iff_disj min_less_iff_disj less_max_iff_disj max_less_iff_conj min_less_iff_conj)
  qed
  have ex: "Min (set t_acc) = 0 \<and> Max (set t_acc) = 1 \<and>
            Min (set t_gyr) = 2 \<and> Max (set t_gyr) = 3 \<longrightarrow>
              build_common_six_axis t_acc acc t_gyr gyr fs = Inl NoOverlap"
  proof
    assume span: "Min (set t_acc) = 0 \<and> Max (set t_acc) = 1 \<and>
            Min (set t_gyr) = 2 \<and> Max (set t_gyr) = 3"
    have "last ta < 2"
    proof (cases "1 < (1 / fs) / 2")
      case True
      with sa span show ?thesis by simp
    next
      case False
      with la span show ?thesis by simp
    qed
    with hg span have "?e \<le> ?s" by simp
    with iff show "build_common_six_axis t_acc acc t_gyr gyr fs = Inl NoOverlap" by simp
  qed
  from ra rg iff ok ex show ?thesis by blast
qed

theorem build_common_six_axis_no_overlap_witness:
  "build_common_six_axis [0, 1] \<lparr>ncols = 3, rows = [[1,2,3],[4,5,6]]\<rparr> [2, 3] \<lparr>ncols = 3, rows = [[1,2,3],[4,5,6]]\<rparr> 100 = Inl NoOverlap \<and>
   (\<exists>t_grid data6. build_common_six_axis [0, 2] \<lparr>ncols = 3, rows = [[1,2,3],[4,5,6]]\<rparr> [1, 3] \<lparr>ncols = 3, rows = [[1,2,3],[4,5,6]]\<rparr> 2 = Inr (t_grid, data6) \<and>
      ncols data6 = 6 \<and> wf_array data6 \<and> nrows data6 = length t_grid)"
proof -
  have n: "nrows \<lparr>ncols = 3, rows = [[1,2,3],[4,5,6]]\<rparr> = length [0, 1 :: real]" "nrows \<lparr>ncols = 3, rows = [[1,2,3],[4,5,6]]\<rparr> = length [2, 3 :: real]"
      "nrows \<lparr>ncols = 3, rows = [[1,2,3],[4,5,6]]\<rparr> = length [0, 2 :: real]" "nrows \<lparr>ncols = 3, rows = [[1,2,3],[4,5,6]]\<rparr> = length [1, 3 :: real]"
    and c: "ncols \<lparr>ncols = 3, rows = [[1,2,3],[4,5,6]]\<rparr> = 3"
    and e: "[0, 1 :: real] \<noteq> []" "[2, 3 :: real] \<noteq> []" "[0, 2 :: real] \<noteq> []" "[1, 3 :: real] \<noteq> []"
    and f: "(0 :: real) < 100" "(0 :: real) < 2"
    by (simp_all add: nrows_def)
  from build_common_six_axis_no_overlap[OF n(1) n(2) c c e(1) e(2) f(1)]
  have first: "build_common_six_axis [0, 1] \<lparr>ncols = 3, rows = [[1,2,3],[4,5,6]]\<rparr> [2, 3] \<lparr>ncols = 3, rows = [[1,2,3],[4,5,6]]\<rparr> 100 = Inl NoOverlap"
    by auto
  have ra: "resample_to_grid [0, 2] \<lparr>ncols = 3, rows = [[1,2,3],[4,5,6]]\<rparr> 2
      = Inr ([0, 1 / 2, 1, 3 / 2, 2],
             \<lparr>ncols = 3, rows = [[1,2,3],[7/4,11/4,15/4],[5/2,7/2,9/2],[13/4,17/4,21/4],[4,5,6]]\<rparr>)"
    by (simp add: resample_to_grid_def nrows_def clean_trace_def arange_def arange_len_def
      interp_columns_def interp_at_def column_def upt_rec)
  have rg: "resample_to_grid [1, 3] \<lparr>ncols = 3, rows = [[1,2,3],[4,5,6]]\<rparr> 2
      = Inr ([1, 3 / 2, 2, 5 / 2, 3],
             \<lparr>ncols = 3, rows = [[1,2,3],[7/4,11/4,15/4],[5/2,7/2,9/2],[13/4,17/4,21/4],[4,5,6]]\<rparr>)"
    by (simp add: resample_to_grid_def nrows_def clean_trace_def arange_def arange_len_def
      interp_columns_def interp_at_def column_def upt_rec)
  from build_common_six_axis_no_overlap[OF n(3) n(4) c c e(3) e(4) f(2)]
  have second: "\<exists>t_grid data6. build_common_six_axis [0, 2] \<lparr>ncols = 3, rows = [[1,2,3],[4,5,6]]\<rparr> [1, 3] \<lparr>ncols = 3, rows = [[1,2,3],[4,5,6]]\<rparr> 2 = Inr (t_grid, data6) \<and>
      ncols data6 = 6 \<and> wf_array data6 \<and> nrows data6 = length t_grid"
    by (simp add: ra rg)
  from first second show ?thesis by blast
qed

subsection \<open>Peak Detector\<close>

lemma length_convolve_full: "length (convolve_full a v) = length a + length v - 1"
  by (simp add: convolve_full_def)

lemma length_convolve_same:
  assumes "a \<noteq> []" and "v \<noteq> []"
  shows "length (convolve_same a v) = max (length a) (length v)"
proof -
  from assms have "0 < length a" and "0 < length v" by simp_all
  then have "max (length a) (length v)
      \<le> length a + length v - 1 - (min (length a) (length v) - 1) div 2"
    by arith
  then show ?thesis
    unfolding convolve_same_def length_take length_drop length_convolve_full
    by (rule min_absorb2)
qed

lemma length_smooth_signal:
  "signal \<noteq> [] \<Longrightarrow> length signal \<le> length (smooth_signal signal fs)"
  by (simp add: smooth_signal_def Let_def length_convolve_same)

lemma find_candidates_props:
  "sorted_wrt (<) (find_candidates smooth thresh n) \<and>
   (\<forall>c\<in>set (find_candidates smooth thresh n). 1 \<le> c \<and> c \<le> int n - 2)"
proof -
  have "sorted_wrt (<) (filter P [1..<n - 1])" for P
    by (simp add: sorted_wrt_filter strict_sorted_iff[symmetric] del: upt_Suc)
  then have "sorted_wrt (<) (map int (filter P [1..<n - 1]))" for P
    by (simp add: sorted_wrt_map)
  then show ?thesis
    by (auto simp: find_candidates_def)
qed

lemma py_index_in_range:
  "0 \<le> i \<Longrightarrow> i < int (length xs) \<Longrightarrow> py_index xs i = Inr (xs ! nat i)"
  by (simp add: py_index_def)

lemma enforce_spacing_inv:
  assumes "sorted_wrt (<) cs"
    and "\<forall>c\<in>set cs. 1 \<le> c \<and> c \<le> n - 2"
    and "n \<le> int (length smooth)"
    and "peaks \<noteq> []"
    and "last_idx = last peaks"
    and "sorted_wrt (<) peaks"
    and "\<forall>p\<in>set peaks. 1 \<le> p \<and> p \<le> n - 2"
    and "\<forall>c\<in>set cs. last peaks < c"
  shows "\<exists>ps. enforce_spacing smooth min_dist cs (peaks, last_idx) = Inr ps \<and>
           sorted_wrt (<) ps \<and> (\<forall>p\<in>set ps. 1 \<le> p \<and> p \<le> n - 2)"
  using assms
proof (induction cs arbitrary: peaks last_idx)
  case Nil
  then show ?case by simp
next
  case (Cons idx rest)
  from Cons.prems have srt: "sorted_wrt (<) rest" and rng: "\<forall>c\<in>set rest. 1 \<le> c \<and> c \<le> n - 2"
    and idx: "1 \<le> idx" "idx \<le> n - 2" and lt: "last peaks < idx"
    and above: "\<forall>c\<in>set rest. idx < c"
    by auto
  from Cons.prems(4,7) have lastin: "1 \<le> last peaks \<and> last peaks \<le> n - 2"
    using last_in_set by blast
  have ia: "py_index smooth idx = Inr (smooth ! nat idx)"
    using idx Cons.prems(3) by (intro py_index_in_range) auto
  have ib: "py_index smooth last_idx = Inr (smooth ! nat last_idx)"
    using lastin Cons.prems(3,5) by (intro py_index_in_range) auto
  \<comment> \<open>appending the candidate\<close>
  have app_sorted: "sorted_wrt (<) (peaks @ [idx])"
  proof -
    have "\<forall>p\<in>set peaks. p < idx"
    proof
      fix p assume p: "p \<in> set peaks"
      from Cons.prems(6) have "sorted peaks" by (simp add: strict_sorted_iff)
      with p Cons.prems(4) have "p \<le> last peaks"
        by (induction peaks) auto
      with lt show "p < idx" by simp
    qed
    with Cons.prems(6) show ?thesis by (simp add: sorted_wrt_append)
  qed
  have app_rng: "\<forall>p\<in>set (peaks @ [idx]). 1 \<le> p \<and> p \<le> n - 2"
    using Cons.prems(7) idx by auto
  \<comment> \<open>replacing the last kept peak\<close>
  have rep_sorted: "sorted_wrt (<) (butlast peaks @ [idx])"
  proof -
    from Cons.prems(4) have "peaks = butlast peaks @ [last peaks]" by simp
    with Cons.prems(6) have s: "sorted_wrt (<) (butlast peaks @ [last peaks])" by simp
    then have "sorted_wrt (<) (butlast peaks)" and "\<forall>p\<in>set (butlast peaks). p < last peaks"
      by (simp_all add: sorted_wrt_append)
    with lt show ?thesis by (fastforce simp: sorted_wrt_append)
  qed
  have rep_rng: "\<forall>p\<in>set (butlast peaks @ [idx]). 1 \<le> p \<and> p \<le> n - 2"
    using Cons.prems(7) idx by (auto dest: in_set_butlastD)
  show ?case
  proof (cases "min_dist \<le> idx - last_idx")
    case True
    have "\<exists>ps. enforce_spacing smooth min_dist rest (peaks @ [idx], idx) = Inr ps \<and>
           sorted_wrt (<) ps \<and> (\<forall>p\<in>set ps. 1 \<le> p \<and> p \<le> n - 2)"
      using srt rng Cons.prems(3) app_sorted app_rng above
      by (intro Cons.IH) simp_all
    with True show ?thesis by simp
  next
    case False
    show ?thesis
    proof (cases "smooth ! nat last_idx < smooth ! nat idx")
      case True
      have "\<exists>ps. enforce_spacing smooth min_dist rest (butlast peaks @ [idx], idx) = Inr ps \<and>
           sorted_wrt (<) ps \<and> (\<forall>p\<in>set ps. 1 \<le> p \<and> p \<le> n - 2)"
        using srt rng Cons.prems(3) rep_sorted rep_rng above
        by (intro Cons.IH) simp_all
      with True False Cons.prems(4) show ?thesis by (simp add: ia ib)
    next
      case nb: False
      have "\<exists>ps. enforce_spacing smooth min_dist rest (peaks, last_idx) = Inr ps \<and>
           sorted_wrt (<) ps \<and> (\<forall>p\<in>set ps. 1 \<le> p \<and> p \<le> n - 2)"
        using srt rng Cons.prems(3,4,5,6,7) above lt
        by (intro Cons.IH) auto
      with nb False show ?thesis by (simp add: ia ib)
    qed
  qed
qed

lemma enforce_spacing_start:
  assumes "sorted_wrt (<) cs"
    and "\<forall>c\<in>set cs. 1 \<le> c \<and> c \<le> n - 2"
    and "n \<le> int (length smooth)"
  shows "\<exists>ps. enforce_spacing smooth min_dist cs ([], - min_dist) = Inr ps \<and>
           sorted_wrt (<) ps \<and> (\<forall>p\<in>set ps. 1 \<le> p \<and> p \<le> n - 2)"
proof (cases cs)
  case Nil
  then show ?thesis by simp
next
  case (Cons idx rest)
  with assms have idx: "1 \<le> idx" "idx \<le> n - 2" and srt: "sorted_wrt (<) rest"
    and rng: "\<forall>c\<in>set rest. 1 \<le> c \<and> c \<le> n - 2" and above: "\<forall>c\<in>set rest. idx < c"
    by auto
  have "\<exists>ps. enforce_spacing smooth min_dist rest ([idx], idx) = Inr ps \<and>
           sorted_wrt (<) ps \<and> (\<forall>p\<in>set ps. 1 \<le> p \<and> p \<le> n - 2)"
    using srt rng assms(3) idx above
    by (intro enforce_spacing_inv) simp_all
  moreover from idx have "min_dist \<le> idx - (- min_dist)" by simp
  ultimately show ?thesis using Cons by simp
qed

text \<open>
  Claim C10. For every signal and all parameter values the detector returns a list (it
  never raises), the list is strictly increasing, and every index \<open>i\<close> in it satisfies
  \<open>1 \<le> i \<le> n - 2\<close>. The invariant of the spacing loop behind it: the kept peaks are
  strictly increasing, \<open>last_idx\<close> is the last of them, and every remaining candidate is
  larger, so the replacement step puts a strictly larger index in the last place.
\<close>

theorem smooth_and_detect_peaks_increasing_interior:
  "\<exists>peaks. smooth_and_detect_peaks signal fs thresh_factor min_distance_sec = Inr peaks \<and>
     sorted_wrt (<) peaks \<and>
     (\<forall>i\<in>set peaks. 1 \<le> i \<and> i \<le> int (length signal) - 2)"
proof (cases "length signal < 3")
  case True
  then show ?thesis by (simp add: smooth_and_detect_peaks_def)
next
  case False
  then have ne: "signal \<noteq> []" by auto
  let ?smooth = "smooth_signal signal fs"
  let ?std = "if np_std ?smooth = 0 then 1 else np_std ?smooth"
  let ?cs = "find_candidates ?smooth (np_mean ?smooth + thresh_factor * ?std) (length signal)"
  have len: "int (length signal) \<le> int (length ?smooth)"
    using length_smooth_signal[OF ne] by simp
  from find_candidates_props[of ?smooth _ "length signal"]
  have cs: "sorted_wrt (<) ?cs" "\<forall>c\<in>set ?cs. 1 \<le> c \<and> c \<le> int (length signal) - 2"
    by blast+
  from enforce_spacing_start[OF cs len]
  have "\<exists>ps. enforce_spacing ?smooth (py_int (min_distance_sec * fs)) ?cs
                ([], - py_int (min_distance_sec * fs)) = Inr ps \<and>
           sorted_wrt (<) ps \<and> (\<forall>p\<in>set ps. 1 \<le> p \<and> p \<le> int (length signal) - 2)" .
  with False show ?thesis
    by (auto simp: smooth_and_detect_peaks_def Let_def)
qed

theorem smooth_and_detect_peaks_increasing_interior_witness:
  "\<exists>peaks. smooth_and_detect_peaks [0, 1, 5, 1, 0, 0, 7, 0] 100 1 0.3 = Inr peaks \<and>
     sorted_wrt (<) peaks \<and> list_all (\<lambda>i. 1 \<le> i \<and> i \<le> 6) peaks"
  using smooth_and_detect_peaks_increasing_interior[of "[0, 1, 5, 1, 0, 0, 7, 0]" 100 1 "0.3"]
  by (simp add: list_all_iff)

text \<open>The moving average of a single spike, and the detector on it.\<close>

lemma length_plateau: "length (plateau a w b c) = a + w + b"
  by (simp add: plateau_def)

lemma plateau_nth:
  "i < a + w + b \<Longrightarrow> plateau a w b c ! i = (if a \<le> i \<and> i < a + w then c else 0)"
  by (auto simp: plateau_def nth_append)

lemma convolve_full_spike_nth:
  assumes "k < n" and "m < n + w - 1"
  shows "convolve_full ((replicate n 0)[k := h]) (replicate w c) ! m =
           (if k \<le> m \<and> m - k < w then h * c else 0)"
proof -
  let ?a = "(replicate n 0)[k := h]"
  have a: "?a ! j = (if j = k then h else 0)" if "j < n" for j
    using that by (simp add: nth_list_update)
  have "convolve_full ?a (replicate w c) ! m =
      (\<Sum>j\<leftarrow>[0..<n]. if j \<le> m \<and> m - j < w then ?a ! j * replicate w c ! (m - j) else 0)"
    using assms(2) by (simp add: convolve_full_def cong: if_cong)
  also have "\<dots> = (\<Sum>j\<in>{0..<n}. if j \<le> m \<and> m - j < w then ?a ! j * replicate w c ! (m - j) else 0)"
    by (simp add: interv_sum_list_conv_sum_set_nat)
  also have "\<dots> = (\<Sum>j\<in>{0..<n}. if j = k then (if k \<le> m \<and> m - k < w then h * c else 0) else 0)"
    by (rule sum.cong) (auto simp: a)
  also have "\<dots> = (if k \<le> m \<and> m - k < w then h * c else 0)"
    using assms(1) by (simp add: sum.delta)
  finally show ?thesis .
qed

lemma convolve_same_spike:
  assumes "0 < w" and "w \<le> n" and "(w - 1) div 2 \<le> k" and "k + w div 2 < n"
  shows "convolve_same ((replicate n 0)[k := h]) (replicate w c) =
           plateau (k - (w - 1) div 2) w (n - (k - (w - 1) div 2) - w) (h * c)"
proof (rule nth_equalityI)
  let ?a = "(replicate n 0)[k := h]" and ?off = "(w - 1) div 2"
  from assms have kn: "k < n" by simp
  from assms have fit: "k - ?off + w \<le> n" by arith
  have len: "length (convolve_same ?a (replicate w c)) = n"
    using assms(1,2) kn by (simp add: length_convolve_same)
  with fit show "length (convolve_same ?a (replicate w c)) =
      length (plateau (k - ?off) w (n - (k - ?off) - w) (h * c))"
    by (simp add: length_plateau)
  fix i assume "i < length (convolve_same ?a (replicate w c))"
  with len have i: "i < n" by simp
  from assms(1,2) have mn: "min n w = w" "max n w = n" by simp_all
  from i assms(1,2) have m: "i + ?off < n + w - 1" by arith
  have "convolve_same ?a (replicate w c) ! i = convolve_full ?a (replicate w c) ! (?off + i)"
    using i m by (simp add: convolve_same_def mn length_convolve_full add.commute)
  also have "\<dots> = (if k \<le> ?off + i \<and> ?off + i - k < w then h * c else 0)"
    using convolve_full_spike_nth[OF kn, of "?off + i" w h c] m by (simp add: add.commute)
  also have "\<dots> = (if k - ?off \<le> i \<and> i < k - ?off + w then h * c else 0)"
    using assms(3) by auto
  also have "\<dots> = plateau (k - ?off) w (n - (k - ?off) - w) (h * c) ! i"
    using i fit by (simp add: plateau_nth)
  finally show "convolve_same ?a (replicate w c) ! i =
      plateau (k - ?off) w (n - (k - ?off) - w) (h * c) ! i" .
qed

lemma plateau_mean:
  "np_mean (plateau a w b c) = real w * c / real (a + w + b)"
  by (simp add: np_mean_def plateau_def sum_list_replicate)

lemma plateau_sq_dev:
  "sum_list (map (\<lambda>x. (x - m)\<^sup>2) (plateau a w b c)) = real (a + b) * m\<^sup>2 + real w * (c - m)\<^sup>2"
  by (simp add: plateau_def sum_list_replicate map_replicate_const algebra_simps)

lemma plateau_threshold:
  assumes "0 < c" and "0 < w" and "2 * w < a + w + b"
  defines "xs \<equiv> plateau a w b c"
  shows "np_std xs \<noteq> 0"
    and "0 < np_mean xs + 1 * np_std xs"
    and "np_mean xs + 1 * np_std xs < c"
proof -
  let ?n = "real (a + w + b)" and ?m = "np_mean xs"
  from assms have n: "0 < ?n" and ab: "0 < real (a + b)" and w: "0 < real w"
    by simp_all
  have m: "?m = real w * c / ?n" unfolding xs_def by (rule plateau_mean)
  from assms(1) w n have mpos: "0 < ?m" by (simp add: m)
  have "2 * (real w * c) < ?n * c"
  proof -
    from assms(3) have "2 * real w < ?n" by linarith
    with assms(1) show ?thesis by (simp add: mult.assoc[symmetric])
  qed
  with n have two: "2 * ?m < c" by (simp add: m field_simps)
  let ?var = "(real (a + b) * ?m\<^sup>2 + real w * (c - ?m)\<^sup>2) / ?n"
  have std: "np_std xs = sqrt ?var"
    unfolding np_std_def xs_def plateau_sq_dev length_plateau ..
  from ab mpos have "0 < real (a + b) * ?m\<^sup>2" by simp
  moreover from w have "0 \<le> real w * (c - ?m)\<^sup>2" by simp
  ultimately have "0 < real (a + b) * ?m\<^sup>2 + real w * (c - ?m)\<^sup>2" by linarith
  with n have vpos: "0 < ?var" by simp
  then have spos: "0 < np_std xs" by (simp add: std)
  then show "np_std xs \<noteq> 0" by simp
  from mpos spos show "0 < ?m + 1 * np_std xs" by simp
  have cm: "0 < c - ?m" using two mpos by linarith
  have "?m\<^sup>2 < (c - ?m)\<^sup>2"
    using two mpos by (intro power_strict_mono) simp_all
  with ab have "real (a + b) * ?m\<^sup>2 < real (a + b) * (c - ?m)\<^sup>2" by simp
  then have "real (a + b) * ?m\<^sup>2 + real w * (c - ?m)\<^sup>2 < ?n * (c - ?m)\<^sup>2"
    by (simp add: algebra_simps)
  with n have "?var < (c - ?m)\<^sup>2" by (simp add: field_simps)
  then have "sqrt ?var < sqrt ((c - ?m)\<^sup>2)" by (rule real_sqrt_less_mono)
  also from cm have "sqrt ((c - ?m)\<^sup>2) = c - ?m" by simp
  finally have "np_std xs < c - ?m" by (simp only: std)
  then show "?m + 1 * np_std xs < c" by simp
qed

lemma filter_upt_interval:
  assumes "lo \<le> a" and "a \<le> b" and "b \<le> hi"
  shows "filter (\<lambda>i. a \<le> i \<and> i < b) [lo..<hi] = [a..<b]"
proof -
  from assms have "[lo..<hi] = [lo..<a] @ [a..<b] @ [b..<hi]"
    by (metis upt_add_eq_append le_Suc_ex le_trans)
  then show ?thesis by (simp add: filter_empty_conv)
qed

lemma plateau_candidates:
  assumes "0 < thresh" and "thresh < c" and "1 \<le> a" and "1 \<le> b" and "0 < w"
  shows "find_candidates (plateau a w b c) thresh (a + w + b) = map int [a..<a + w]"
proof -
  let ?xs = "plateau a w b c" and ?n = "a + w + b"
  have "filter (\<lambda>i. thresh < ?xs ! i \<and> ?xs ! (i - 1) \<le> ?xs ! i \<and> ?xs ! (i + 1) \<le> ?xs ! i)
          [1..<?n - 1] = filter (\<lambda>i. a \<le> i \<and> i < a + w) [1..<?n - 1]"
  proof (rule filter_cong[OF refl])
    fix i assume "i \<in> set [1..<?n - 1]"
    then have i: "1 \<le> i" "i + 1 < ?n" by auto
    then have "i < ?n" "i - 1 < ?n" by simp_all
    with i assms(1,2) show "(thresh < ?xs ! i \<and> ?xs ! (i - 1) \<le> ?xs ! i \<and> ?xs ! (i + 1) \<le> ?xs ! i)
        = (a \<le> i \<and> i < a + w)"
      by (auto simp: plateau_nth)
  qed
  also have "\<dots> = [a..<a + w]"
    using assms(3,4) by (intro filter_upt_interval) simp_all
  finally show ?thesis by (simp add: find_candidates_def)
qed

lemma enforce_spacing_keep:
  assumes "\<forall>idx\<in>set rest. idx - last_idx < min_dist \<and> 0 \<le> idx \<and> idx < int (length smooth) \<and>
              smooth ! nat idx \<le> smooth ! nat last_idx"
    and "0 \<le> last_idx" and "last_idx < int (length smooth)"
  shows "enforce_spacing smooth min_dist rest (peaks, last_idx) = Inr peaks"
  using assms(1)
proof (induction rest)
  case Nil
  then show ?case by simp
next
  case (Cons idx rest)
  then have "\<not> min_dist \<le> idx - last_idx" and "0 \<le> idx" and "idx < int (length smooth)"
    and "\<not> smooth ! nat last_idx < smooth ! nat idx"
    by auto
  with Cons assms(2,3) show ?case
    by (simp add: py_index_in_range)
qed

lemma plateau_spacing:
  assumes "int w \<le> min_dist" and "0 < w"
  shows "enforce_spacing (plateau a w b c) min_dist (map int [a..<a + w]) ([], - min_dist)
           = Inr [int a]"
proof -
  from assms(2) have upt: "[a..<a + w] = a # [Suc a..<a + w]" by (simp add: upt_conv_Cons)
  have keep: "enforce_spacing (plateau a w b c) min_dist (map int [Suc a..<a + w]) ([int a], int a)
           = Inr [int a]"
  proof (rule enforce_spacing_keep)
    show "\<forall>idx\<in>set (map int [Suc a..<a + w]).
       idx - int a < min_dist \<and> 0 \<le> idx \<and> idx < int (length (plateau a w b c)) \<and>
       plateau a w b c ! nat idx \<le> plateau a w b c ! nat (int a)"
      using assms by (auto simp: length_plateau plateau_nth)
    show "0 \<le> int a" by simp
    from assms(2) show "int a < int (length (plateau a w b c))" by (simp add: length_plateau)
  qed
  show ?thesis by (simp add: upt keep)
qed

lemma smooth_signal_spike:
  assumes "w = nat (max 3 (py_int (0.05 * fs)))"
    and "w \<le> n" and "(w - 1) div 2 \<le> k" and "k + w div 2 < n"
  shows "smooth_signal ((replicate n 0)[k := h]) fs =
           plateau (k - (w - 1) div 2) w (n - (k - (w - 1) div 2) - w) (h * (1 / real w))"
proof -
  let ?win = "max 3 (py_int (0.05 * fs))"
  have win: "1 < ?win" by simp
  from assms(1) have w: "0 < w" and rw: "real_of_int ?win = real w" by simp_all
  have "smooth_signal ((replicate n 0)[k := h]) fs =
      convolve_same ((replicate n 0)[k := h]) (replicate (nat ?win) (1 / real_of_int ?win))"
    unfolding smooth_signal_def Let_def using win by (simp only: if_True)
  also have "\<dots> = convolve_same ((replicate n 0)[k := h]) (replicate w (1 / real w))"
    by (simp only: rw assms(1)[symmetric])
  also have "\<dots> = plateau (k - (w - 1) div 2) w (n - (k - (w - 1) div 2) - w) (h * (1 / real w))"
    by (rule convolve_same_spike[OF w assms(2,3,4)])
  finally show ?thesis .
qed

lemma spike_peak_at_plateau_start:
  assumes "0 < h" and "10 \<le> fs"
    and "w = nat (max 3 (py_int (0.05 * fs)))"
    and "(w - 1) div 2 < k" and "k + w div 2 + 1 < n" and "2 * w < n"
  shows "smooth_and_detect_peaks ((replicate n 0)[k := h]) fs 1 0.3
           = Inr [int k - int ((w - 1) div 2)]"
proof -
  let ?sig = "(replicate n 0)[k := h]"
  let ?a = "k - (w - 1) div 2"
  let ?b = "n - ?a - w"
  let ?c = "h * (1 / real w)"
  let ?sm = "plateau ?a w ?b ?c"
  from assms(3) have w3: "3 \<le> w" by simp
  then have w: "0 < w" by simp
  from assms(6) w3 have n3: "\<not> n < 3" and wn: "w \<le> n" by simp_all
  from assms(4) have a1: "1 \<le> ?a" and offk: "(w - 1) div 2 \<le> k" by simp_all
  from assms(4,5) w have b1: "1 \<le> ?b" by arith
  from assms(4,5) w have sum: "?a + w + ?b = n" by arith
  from assms(5) have fit: "k + w div 2 < n" by simp
  have sm: "smooth_signal ?sig fs = ?sm"
    by (rule smooth_signal_spike[OF assms(3) wn offk fit])
  from assms(1) w have c: "0 < ?c" by simp
  from assms(6) sum have two: "2 * w < ?a + w + ?b" by simp
  note th = plateau_threshold[OF c w two]
  have cand: "find_candidates ?sm (np_mean ?sm + 1 * np_std ?sm) n = map int [?a..<?a + w]"
    using plateau_candidates[OF th(2,3) a1 b1 w] by (simp only: sum)
  from w have cne: "map int [?a..<?a + w] \<noteq> []" by simp
  have md: "int w \<le> py_int (0.3 * fs)"
  proof -
    from assms(2) have nn: "0 \<le> 0.05 * fs" "0 \<le> 0.3 * fs" and three: "3 \<le> 0.3 * fs"
      and le: "0.05 * fs \<le> 0.3 * fs" by simp_all
    from three have "3 \<le> \<lfloor>0.3 * fs\<rfloor>" by (simp add: le_floor_iff)
    moreover from le have "\<lfloor>0.05 * fs\<rfloor> \<le> \<lfloor>0.3 * fs\<rfloor>" by (rule floor_mono)
    ultimately show ?thesis using nn by (simp add: assms(3) py_int_def)
  qed
  have sp: "enforce_spacing ?sm (py_int (0.3 * fs)) (map int [?a..<?a + w])
              ([], - py_int (0.3 * fs)) = Inr [int ?a]"
    by (rule plateau_spacing[OF md w])
  have "smooth_and_detect_peaks ?sig fs 1 0.3 = Inr [int ?a]"
    unfolding smooth_and_detect_peaks_def Let_def
    by (simp only: length_list_update length_replicate n3 if_False sm th(1) cand cne sp)
  with offk show ?thesis by simp
qed

text \<open>
  Claim C3, as the code has it. The moving average of window \<open>w = max(3, int(0.05 fs))\<close>
  turns a single spike of height \<open>h > 0\<close> at index \<open>k\<close> into a plateau of \<open>w\<close> equal
  values on the indices \<open>k - (w - 1) div 2, \<dots>, k + w div 2\<close>. Every plateau index is a
  candidate (the local-maximum test is plateau-inclusive), the first one is kept and the
  others, being no stronger, never replace it. So for \<open>fs \<ge> 10\<close>, a plateau strictly
  inside the signal and \<open>n > 2 w\<close>, the detector with \<open>thresh_factor = 1\<close> and the default
  \<open>min_distance_sec = 0.3\<close> returns exactly one peak, at index \<open>k - (w - 1) div 2\<close>,
  which is \<open>k - 2\<close> at \<open>fs = 100\<close> and never \<open>k\<close>.
\<close>

theorem spike_single_peak:
  assumes "0 < h" and "10 \<le> fs"
    and "w = nat (max 3 (py_int (0.05 * fs)))"
    and "(w - 1) div 2 < k" and "k + w div 2 + 1 < n" and "2 * w < n"
  shows "smooth_and_detect_peaks ((replicate n 0)[k := h]) fs 1 0.3
           = Inr [int k - int ((w - 1) div 2)]"
  using assms by (rule spike_peak_at_plateau_start)

theorem spike_single_peak_witness:
  "smooth_and_detect_peaks ((replicate 12 0)[5 := 1]) 100 1 0.3 = Inr [3]"
proof -
  have w: "(5 :: nat) = nat (max 3 (py_int (0.05 * 100)))"
    by (simp add: py_int_def)
  have "smooth_and_detect_peaks ((replicate 12 0)[5 := 1]) 100 1 0.3
          = Inr [int 5 - int ((5 - 1) div 2)]"
    by (rule spike_single_peak[OF _ _ w]) simp_all
  then show ?thesis by simp
qed

text \<open>
  At \<open>fs = 100\<close> a signal of 25 samples, all zero except a spike of height 25 at index
  12, yields the single peak 10, not 12. The evaluation runs the detector step by step.
\<close>

lemma py_int_fs100: "py_int (0.05 * 100) = 5" "py_int (0.3 * 100) = 30"
  by (simp_all add: py_int_def)

lemma smooth_spike25:
  "smooth_signal ((replicate 25 0)[12 := 25]) 100
     = [0,0,0,0,0,0,0,0,0,0,5,5,5,5,5,0,0,0,0,0,0,0,0,0,0]"
  unfolding smooth_signal_def py_int_fs100 Let_def
  by code_simp

lemma stats_spike25:
  "np_mean [0,0,0,0,0,0,0,0,0,0,5,5,5,5,5,0,0,0,0,0,0,0,0,0,0] = 1"
  "np_std [0,0,0,0,0,0,0,0,0,0,5,5,5,5,5,0,0,0,0,0,0,0,0,0,0] = 2"
proof -
  show m: "np_mean [0,0,0,0,0,0,0,0,0,0,5,5,5,5,5,0,0,0,0,0,0,0,0,0,0] = 1"
    by (simp add: np_mean_def)
  have "sqrt 4 = 2" by (rule real_sqrt_four)
  then show "np_std [0,0,0,0,0,0,0,0,0,0,5,5,5,5,5,0,0,0,0,0,0,0,0,0,0] = 2"
    unfolding np_std_def m by simp
qed

lemma candidates_spike25:
  "find_candidates [0,0,0,0,0,0,0,0,0,0,5,5,5,5,5,0,0,0,0,0,0,0,0,0,0] 3 25 = [10, 11, 12, 13, 14]"
  unfolding find_candidates_def by code_simp

theorem spike_peak_counterexample:
  "smooth_and_detect_peaks ((replicate 25 0)[12 := 25]) 100 1 0.3 = Inr [10]"
proof -
  have "enforce_spacing [0,0,0,0,0,0,0,0,0,0,5,5,5,5,5,0,0,0,0,0,0,0,0,0,0] 30
          [10, 11, 12, 13, 14] ([], - 30) = Inr [10]"
    by (simp add: py_index_def)
  then show ?thesis
    unfolding smooth_and_detect_peaks_def Let_def smooth_spike25 stats_spike25 py_int_fs100
    by (simp add: candidates_spike25 del: enforce_spacing.simps)
qed

subsection \<open>Window Segmenter\<close>

lemma segment_loop_eq:
  "segment_loop data6 pre post peaks segments =
     segments @ map (\<lambda>p. slice_rows data6 (max 0 (p - pre)) (min (int (nrows data6)) (p + post)))
                    (filter (\<lambda>p. max 0 (p - pre) < min (int (nrows data6)) (p + post)) peaks)"
  by (induction peaks arbitrary: segments) (simp_all add: Let_def not_le del: max_less_iff_conj min_less_iff_conj)

lemma take_drop_nth:
  assumes "s \<le> e" and "e \<le> length xs"
  shows "take (e - s) (drop s xs) = map (\<lambda>i. xs ! i) [s..<e]"
proof (rule nth_equalityI)
  from assms show "length (take (e - s) (drop s xs)) = length (map (\<lambda>i. xs ! i) [s..<e])"
    by simp
next
  fix i assume "i < length (take (e - s) (drop s xs))"
  with assms show "take (e - s) (drop s xs) ! i = map (\<lambda>i. xs ! i) [s..<e] ! i"
    by simp
qed

lemma slice_rows_window:
  assumes "0 \<le> start" and "start < stop" and "stop \<le> int (nrows a)"
  shows "slice_rows a start stop =
           \<lparr>ncols = ncols a, rows = map (\<lambda>i. rows a ! i) [nat start..<nat stop]\<rparr>"
proof -
  from assms have "nat (stop - start) = nat stop - nat start" by simp
  moreover from assms have "nat start \<le> nat stop" "nat stop \<le> length (rows a)"
    by (simp_all add: nrows_def)
  ultimately show ?thesis
    by (simp add: slice_rows_def take_drop_nth)
qed

text \<open>
  Claim C9, as the code has it. The window bounds use \<^verbatim>\<open>int(...)\<close>, which truncates
  toward zero, not \<open>round\<close>, and it truncates the product as the doubles give it: with
  \<open>pre = int(pre_sec * fs)\<close> and \<open>post = int(post_sec * fs)\<close> so computed, for a signal of
  \<open>T\<close> rows and six channels the segmenter produces, per peak, the rows from
  \<open>start = max(0, peak - pre)\<close> up to but excluding \<open>end = min(T, peak + post)\<close>, skips
  every peak with \<open>end \<le> start\<close>, and returns the surviving segments in peak order; no
  window starts below \<open>0\<close>, and for a peak at index \<open>0\<close> with \<open>pre_sec > 0\<close> and
  \<open>fs > 0\<close>, whose product is not negative, the window starts at \<open>0\<close>.
\<close>

theorem segment_around_peaks_windows:
  assumes "ncols data6 = 6"
  shows "segment_around_peaks fl data6 peaks fs pre_sec post_sec =
           Inr (map (\<lambda>p. \<lparr>ncols = 6,
                          rows = map (\<lambda>i. rows data6 ! i)
                            [nat (max 0 (p - py_int (fl (pre_sec * fs))))..<
                             nat (min (int (nrows data6)) (p + py_int (fl (post_sec * fs))))]\<rparr>)
                    (filter (\<lambda>p. max 0 (p - py_int (fl (pre_sec * fs)))
                                 < min (int (nrows data6)) (p + py_int (fl (post_sec * fs)))) peaks)) \<and>
         (0 < pre_sec \<and> 0 < fs \<and> 0 \<le> fl (pre_sec * fs) \<longrightarrow>
            max 0 (0 - py_int (fl (pre_sec * fs))) = 0)"
proof
  let ?pre = "py_int (fl (pre_sec * fs))" and ?post = "py_int (fl (post_sec * fs))"
  let ?n = "int (nrows data6)"
  have "slice_rows data6 (max 0 (p - ?pre)) (min ?n (p + ?post)) =
          \<lparr>ncols = 6, rows = map (\<lambda>i. rows data6 ! i)
              [nat (max 0 (p - ?pre))..<nat (min ?n (p + ?post))]\<rparr>"
    if "max 0 (p - ?pre) < min ?n (p + ?post)" for p
    using slice_rows_window[OF _ that] assms by simp
  then have "map (\<lambda>p. slice_rows data6 (max 0 (p - ?pre)) (min ?n (p + ?post)))
               (filter (\<lambda>p. max 0 (p - ?pre) < min ?n (p + ?post)) peaks) =
             map (\<lambda>p. \<lparr>ncols = 6, rows = map (\<lambda>i. rows data6 ! i)
                    [nat (max 0 (p - ?pre))..<nat (min ?n (p + ?post))]\<rparr>)
               (filter (\<lambda>p. max 0 (p - ?pre) < min ?n (p + ?post)) peaks)"
    by (intro map_cong refl) simp
  with assms show "segment_around_peaks fl data6 peaks fs pre_sec post_sec =
           Inr (map (\<lambda>p. \<lparr>ncols = 6,
                          rows = map (\<lambda>i. rows data6 ! i)
                            [nat (max 0 (p - ?pre))..<nat (min ?n (p + ?post))]\<rparr>)
                    (filter (\<lambda>p. max 0 (p - ?pre) < min ?n (p + ?post)) peaks))"
    by (simp add: segment_around_peaks_def segment_loop_eq Let_def del: max_less_iff_conj min_less_iff_conj)
next
  show "0 < pre_sec \<and> 0 < fs \<and> 0 \<le> fl (pre_sec * fs) \<longrightarrow>
          max 0 (0 - py_int (fl (pre_sec * fs))) = 0"
  proof
    assume "0 < pre_sec \<and> 0 < fs \<and> 0 \<le> fl (pre_sec * fs)"
    then have "0 \<le> py_int (fl (pre_sec * fs))" by (simp add: py_int_def)
    then show "max 0 (0 - py_int (fl (pre_sec * fs))) = 0" by simp
  qed
qed

text \<open>
  The witness and the counterexample take products that a double holds exactly
  (\<open>1 * 2\<close>, \<open>1/2 * 2\<close>, \<open>3/4 * 1\<close>, \<open>1 * 1\<close>), where the rounding returns its argument.
\<close>

theorem segment_around_peaks_windows_witness:
  "ncols \<lparr>ncols = 6, rows = [[0,0,0,0,0,0],[1,1,1,1,1,1],[2,2,2,2,2,2],[3,3,3,3,3,3]]\<rparr> = 6 \<and>
   segment_around_peaks (\<lambda>x. x) \<lparr>ncols = 6, rows = [[0,0,0,0,0,0],[1,1,1,1,1,1],[2,2,2,2,2,2],[3,3,3,3,3,3]]\<rparr> [0, 3, 7] 2 1 (1 / 2)
    = Inr [\<lparr>ncols = 6, rows = [[0,0,0,0,0,0]]\<rparr>,
           \<lparr>ncols = 6, rows = [[1,1,1,1,1,1],[2,2,2,2,2,2],[3,3,3,3,3,3]]\<rparr>]"
proof -
  have c: "ncols \<lparr>ncols = 6, rows = [[0,0,0,0,0,0],[1,1,1,1,1,1],[2,2,2,2,2,2],[3,3,3,3,3,3]]\<rparr> = 6"
    by simp
  have p: "py_int 2 = 2" "py_int 1 = 1"
    by (simp_all add: py_int_def)
  from segment_around_peaks_windows[OF c, of "\<lambda>x. x" "[0, 3, 7]" 2 1 "1 / 2"]
  show ?thesis
    by (simp add: p nrows_def upt_rec)
qed

text \<open>
  With \<open>fs = 1\<close> and \<open>pre_sec = 3/4\<close> the product rounds to \<open>1\<close> and truncates to \<open>0\<close>:
  for the peak at index 2 the code returns the single row 2, where the bounds computed
  with \<open>round\<close> select the rows 1 and 2.
\<close>

theorem segment_around_peaks_round_counterexample:
  "segment_around_peaks (\<lambda>x. x) \<lparr>ncols = 6, rows = [[0,0,0,0,0,0],[1,1,1,1,1,1],[2,2,2,2,2,2],[3,3,3,3,3,3]]\<rparr> [2] 1 (3 / 4) 1
    = Inr [\<lparr>ncols = 6, rows = [[2,2,2,2,2,2]]\<rparr>] \<and>
   slice_rows \<lparr>ncols = 6, rows = [[0,0,0,0,0,0],[1,1,1,1,1,1],[2,2,2,2,2,2],[3,3,3,3,3,3]]\<rparr>
      (max 0 (2 - round (3 / 4 * 1 :: real))) (min 4 (2 + round (1 * 1 :: real)))
    = \<lparr>ncols = 6, rows = [[1,1,1,1,1,1],[2,2,2,2,2,2]]\<rparr>"
proof -
  have r: "round (3 / 4 :: real) = 1" "round (1 :: real) = 1"
    by (simp_all add: round_def floor_eq_iff)
  have p: "py_int (3 / 4) = 0" "py_int 1 = 1"
    by (simp_all add: py_int_def)
  show ?thesis
    by (simp add: segment_around_peaks_def nrows_def slice_rows_def r p)
qed

subsection \<open>Fixed-Length Normalizer\<close>

text \<open>
  Claim C7. A segment of shape \<open>(L, 6)\<close> is returned exactly unchanged by
  \<open>to_fixed_length\<close> at target length \<open>L\<close>; and whenever \<open>to_fixed_length seg L\<close>
  returns a segment, normalising that result to \<open>L\<close> again returns it unchanged
  (idempotence).
\<close>

theorem to_fixed_length_idempotent:
  "(ncols seg = 6 \<and> int (nrows seg) = L \<longrightarrow> to_fixed_length seg L = Inr seg) \<and>
   (to_fixed_length seg L = Inr r \<longrightarrow> to_fixed_length r L = Inr r)"
proof (intro conjI impI)
  assume "ncols seg = 6 \<and> int (nrows seg) = L"
  then show "to_fixed_length seg L = Inr seg"
    by (simp add: to_fixed_length_def)
next
  assume "to_fixed_length seg L = Inr r"
  from to_fixed_length_shape[OF this]
  show "to_fixed_length r L = Inr r"
    by (simp add: to_fixed_length_def)
qed

lemma to_fixed_length_stretch_example:
  "to_fixed_length \<lparr>ncols = 6, rows = [[0,0,0,0,0,0],[2,4,6,8,10,12]]\<rparr> 3
   = Inr \<lparr>ncols = 6, rows = [[0,0,0,0,0,0],[1,2,3,4,5,6],[2,4,6,8,10,12]]\<rparr>"
  by (simp add: to_fixed_length_def nrows_def linspace_def interp_columns_def
      interp_at_def column_def upt_rec)

theorem to_fixed_length_idempotent_witness:
  "to_fixed_length \<lparr>ncols = 6, rows = [[0,0,0,0,0,0],[2,4,6,8,10,12]]\<rparr> 2
     = Inr \<lparr>ncols = 6, rows = [[0,0,0,0,0,0],[2,4,6,8,10,12]]\<rparr> \<and>
   to_fixed_length \<lparr>ncols = 6, rows = [[0,0,0,0,0,0],[2,4,6,8,10,12]]\<rparr> 3
     = Inr \<lparr>ncols = 6, rows = [[0,0,0,0,0,0],[1,2,3,4,5,6],[2,4,6,8,10,12]]\<rparr> \<and>
   to_fixed_length \<lparr>ncols = 6, rows = [[0,0,0,0,0,0],[1,2,3,4,5,6],[2,4,6,8,10,12]]\<rparr> 3
     = Inr \<lparr>ncols = 6, rows = [[0,0,0,0,0,0],[1,2,3,4,5,6],[2,4,6,8,10,12]]\<rparr>"
  using to_fixed_length_idempotent
     [of "\<lparr>ncols = 6, rows = [[0,0,0,0,0,0],[2,4,6,8,10,12]]\<rparr>" 2]
    to_fixed_length_idempotent
     [of "\<lparr>ncols = 6, rows = [[0,0,0,0,0,0],[2,4,6,8,10,12]]\<rparr>" 3
         "\<lparr>ncols = 6, rows = [[0,0,0,0,0,0],[1,2,3,4,5,6],[2,4,6,8,10,12]]\<rparr>"]
    to_fixed_length_stretch_example
  by (simp add: nrows_def)

subsection \<open>Synthetic Augmentor\<close>

lemma pad_or_truncate_rows:
  "nrows (pad_or_truncate a len) = len \<and> ncols (pad_or_truncate a len) = ncols a \<and>
   (\<forall>i<len. rows (pad_or_truncate a len) ! i =
       (if i < nrows a then rows a ! i else replicate (ncols a) 0))"
  by (auto simp: pad_or_truncate_def Let_def nrows_def nth_append)

lemma py_int_nonneg: "0 \<le> x \<Longrightarrow> 0 \<le> py_int x"
  by (simp add: py_int_def)

lemma linspace_ok: "0 \<le> num \<Longrightarrow> \<exists>xs. linspace start stop num = Inr xs"
  by (simp add: linspace_def)

lemma warp_sample_ok:
  assumes "0 < nrows sample"
  shows "\<exists>w. warp_sample noise gains scale sample = Inr w \<and>
           ncols w = ncols sample \<and>
           int (nrows w) = max 2 (py_int (real (nrows sample) * scale))"
proof -
  define aug where "aug = \<lparr>ncols = ncols sample,
                 rows = map (\<lambda>i. map (\<lambda>j. (rows sample ! i ! j + noise i j) * gains j)
                                     [0..<length (rows sample ! i)])
                            [0..<nrows sample]\<rparr>"
  define t where "t = int (nrows aug)"
  define new_t where
    "new_t = (if py_int (real_of_int t * scale) < 2 then 2 else py_int (real_of_int t * scale))"
  have t: "t = int (nrows sample)" by (simp add: t_def aug_def nrows_def)
  have nt: "new_t = max 2 (py_int (real (nrows sample) * scale))"
    by (simp add: new_t_def t max_def)
  have ws: "warp_sample noise gains scale sample =
      (case linspace 0 (real_of_int (t - 1)) t of
           Inl e \<Rightarrow> Inl e
         | Inr orig_idx \<Rightarrow>
            (case linspace 0 (real_of_int (t - 1)) new_t of
               Inl e \<Rightarrow> Inl e
             | Inr new_idx \<Rightarrow> interp_columns new_idx orig_idx aug))"
    unfolding warp_sample_def Let_def aug_def[symmetric] t_def[symmetric] new_t_def[symmetric] ..
  have "0 \<le> t" by (simp add: t)
  from linspace_ok[OF this] obtain orig_idx where
    o: "linspace 0 (real_of_int (t - 1)) t = Inr orig_idx" by blast
  from length_linspace[OF o] assms have one: "orig_idx \<noteq> []" by (auto simp: t)
  have "0 \<le> new_t" by (simp add: nt)
  from linspace_ok[OF this] obtain new_idx where
    n: "linspace 0 (real_of_int (t - 1)) new_t = Inr new_idx" by blast
  from one obtain w where w: "interp_columns new_idx orig_idx aug = Inr w"
    by (auto simp: interp_columns_def)
  from interp_columns_shape(1,2)[OF w] length_linspace[OF n]
  have "ncols w = ncols sample" and "int (nrows w) = new_t"
    by (simp_all add: aug_def)
  with ws o n w nt show ?thesis by simp
qed

text \<open>
  Claim C1, as the code has it. After the time-axis warp has resampled a non-empty input
  to \<open>max(2, int(T * scale))\<close> time steps, the signal is brought to the length
  \<open>L = 128\<close> by \<^verbatim>\<open>pad_or_truncate\<close>, not by a second resample: the result keeps the
  rows of the warped signal up to index \<open>L\<close> (cropping a longer one) and every further
  row up to \<open>L\<close> is a row of zeros (padding a shorter one).
\<close>

theorem augment_sample_pads_or_crops:
  assumes "0 < nrows sample"
  shows "\<exists>w r. warp_sample noise gains scale sample = Inr w \<and>
           int (nrows w) = max 2 (py_int (real (nrows sample) * scale)) \<and>
           augment_sample noise gains scale sample = Inr r \<and>
           nrows r = FIXED_LENGTH \<and> ncols r = ncols sample \<and>
           (\<forall>i<FIXED_LENGTH. rows r ! i =
               (if i < nrows w then rows w ! i else replicate (ncols sample) 0))"
proof -
  from warp_sample_ok[OF assms] obtain w where
    w: "warp_sample noise gains scale sample = Inr w" and c: "ncols w = ncols sample"
    and n: "int (nrows w) = max 2 (py_int (real (nrows sample) * scale))" by blast
  have "augment_sample noise gains scale sample = Inr (pad_or_truncate w FIXED_LENGTH)"
    by (simp add: augment_sample_def w)
  with w c n pad_or_truncate_rows[of w FIXED_LENGTH] show ?thesis by auto
qed

lemma warp_ones2: "warp_sample (\<lambda>i j. 0) (\<lambda>j. 1) 1 ones2 = Inr ones2"
  by (simp add: warp_sample_def ones2_def nrows_def py_int_def linspace_def interp_columns_def
      interp_at_def column_def upt_rec)

lemma augment_ones2:
  "augment_sample (\<lambda>i j. 0) (\<lambda>j. 1) 1 ones2 =
     Inr \<lparr>ncols = 6, rows = rows ones2 @ replicate 126 (replicate 6 0)\<rparr>"
  by (simp add: augment_sample_def warp_ones2 pad_or_truncate_def FIXED_LENGTH_def)
     (simp add: ones2_def nrows_def)

lemma upt_small: "[0..<2] = [0, 1]" "[0..<6] = [0, 1, 2, 3, 4, 5]"
  by (simp_all add: upt_rec)

lemma resample_ones2:
  "\<exists>r. to_fixed_length ones2 128 = Inr r \<and> rows r ! 127 = [1,1,1,1,1,1]"
  by (simp add: to_fixed_length_def ones2_def nrows_def linspace_def interp_columns_def
      interp_at_def column_def upt_small)

theorem augment_sample_pads_or_crops_witness:
  "\<exists>w r. warp_sample (\<lambda>i j. 0) (\<lambda>j. 1) 1 ones2 = Inr w \<and> int (nrows w) = 2 \<and>
     augment_sample (\<lambda>i j. 0) (\<lambda>j. 1) 1 ones2 = Inr r \<and> nrows r = 128 \<and>
     rows r ! 1 = rows w ! 1 \<and> rows r ! 2 = [0,0,0,0,0,0]"
proof -
  have n: "0 < nrows ones2" by (simp add: ones2_def nrows_def)
  have p: "max 2 (py_int (real (nrows ones2) * 1)) = 2"
    by (simp add: ones2_def nrows_def py_int_def)
  from augment_sample_pads_or_crops[OF n, of "\<lambda>i j. 0" "\<lambda>j. 1" 1]
  obtain w r where a: "warp_sample (\<lambda>i j. 0) (\<lambda>j. 1) 1 ones2 = Inr w"
    and b: "int (nrows w) = 2"
    and c: "augment_sample (\<lambda>i j. 0) (\<lambda>j. 1) 1 ones2 = Inr r"
    and d: "nrows r = FIXED_LENGTH"
    and e: "\<forall>i<FIXED_LENGTH. rows r ! i =
               (if i < nrows w then rows w ! i else replicate (ncols ones2) 0)"
    unfolding p by blast
  from b have nw: "nrows w = 2" by simp
  from e nw have "rows r ! 1 = rows w ! 1" and "rows r ! 2 = [0,0,0,0,0,0]"
    by (simp_all add: FIXED_LENGTH_def ones2_def numeral_eq_Suc)
  with a b c d show ?thesis by (auto simp: FIXED_LENGTH_def)
qed

text \<open>
  With no noise, unit gains and scale 1 the warp returns the two-row segment of ones
  unchanged; the augmentor then appends 126 rows of zeros, where the Fixed-Length
  Normalizer would give 128 rows of ones.
\<close>

theorem augment_sample_pads_counterexample:
  "warp_sample (\<lambda>i j. 0) (\<lambda>j. 1) 1 ones2 = Inr ones2 \<and>
   augment_sample (\<lambda>i j. 0) (\<lambda>j. 1) 1 ones2
     = Inr \<lparr>ncols = 6, rows = rows ones2 @ replicate 126 (replicate 6 0)\<rparr> \<and>
   augment_sample (\<lambda>i j. 0) (\<lambda>j. 1) 1 ones2 \<noteq> to_fixed_length ones2 128"
proof -
  from resample_ones2 obtain r where
    r: "to_fixed_length ones2 128 = Inr r" and last: "rows r ! 127 = [1,1,1,1,1,1]" by blast
  have "(rows ones2 @ replicate 126 (replicate 6 (0::real))) ! 127 = replicate 6 0"
    by (simp add: ones2_def nth_append)
  with last have "rows r \<noteq> rows ones2 @ replicate 126 (replicate 6 0)"
    by (auto simp: upt_small numeral_eq_Suc)
  then have "augment_sample (\<lambda>i j. 0) (\<lambda>j. 1) 1 ones2 \<noteq> to_fixed_length ones2 128"
    unfolding augment_ones2 r by auto
  with warp_ones2 augment_ones2 show ?thesis by blast
qed

subsection \<open>Segment files\<close>

lemma of_char_digit: "d < 10 \<Longrightarrow> (of_char (char_of (48 + d :: nat)) :: nat) = 48 + d"
  by simp

lemma is_digit_char_of: "d < 10 \<Longrightarrow> is_digit (char_of (48 + d :: nat))"
  by (simp add: is_digit_def of_char_digit)

lemma digits_value_snoc:
  "digits_value (s @ [c]) = 10 * digits_value s + (of_char c - 48)"
  by (simp add: digits_value_def)

lemma dec_digits_props:
  "dec_digits n \<noteq> [] \<and> list_all is_digit (dec_digits n) \<and> digits_value (dec_digits n) = n"
proof (induction n rule: dec_digits.induct)
  case (1 n)
  show ?case
  proof (cases "n < 10")
    case True
    then have "dec_digits n = [char_of (48 + n)]" by (simp add: dec_digits.simps)
    with True show ?thesis
      by (simp add: is_digit_char_of digits_value_def of_char_digit)
  next
    case False
    then have eq: "dec_digits n = dec_digits (n div 10) @ [char_of (48 + n mod 10)]"
      by (subst dec_digits.simps) simp
    have d: "n mod 10 < 10" by simp
    from 1[OF False] d show ?thesis
      unfolding eq by (simp add: is_digit_char_of digits_value_snoc of_char_digit)
  qed
qed

lemma digits_value_zeros: "digits_value (replicate k CHR ''0'' @ s) = digits_value s"
proof -
  have "foldl (\<lambda>a c. 10 * a + (of_char c - 48)) (0 :: nat) (replicate k CHR ''0'') = 0"
    by (induction k) simp_all
  then show ?thesis by (simp add: digits_value_def)
qed

lemma is_digit_zero: "is_digit CHR ''0''"
  by (simp add: is_digit_def)

lemma format_03d_props:
  "format_03d (int n) \<noteq> [] \<and> list_all is_digit (format_03d (int n)) \<and>
   digits_value (format_03d (int n)) = n \<and> 3 \<le> length (format_03d (int n))"
  using dec_digits_props[of n]
  by (auto simp: format_03d_def digits_value_zeros list_all_iff is_digit_zero)

lemma digit_not_space: "is_digit c \<Longrightarrow> \<not> is_space c"
  by (auto simp: is_digit_def is_space_def)

lemma digit_not_sign: "is_digit c \<Longrightarrow> c \<noteq> CHR ''-'' \<and> c \<noteq> CHR ''+'' \<and> c \<noteq> CHR ''_''"
  by (auto simp: is_digit_def)

lemma strip_digits:
  assumes "s \<noteq> []" and "list_all is_digit s"
  shows "strip s = s"
proof -
  from assms have h: "\<not> is_space (hd s)" and l: "\<not> is_space (last s)"
    by (auto simp: list_all_iff digit_not_space)
  from assms(1) h have a: "dropWhile is_space s = s" by (cases s) auto
  from assms(1) l have "dropWhile is_space (rev s) = rev s"
    by (cases "rev s") (auto simp: last_rev[symmetric] hd_rev)
  with a show ?thesis by (simp add: strip_def)
qed

lemma py_int_of_string_digits:
  assumes "s \<noteq> []" and "list_all is_digit s"
  shows "py_int_of_string s = Some (int (digits_value s))"
proof -
  from assms obtain c cs where s: "s = c # cs" by (cases s) auto
  with assms(2) have "is_digit c" by simp
  from digit_not_sign[OF this] assms show ?thesis
    by (simp add: py_int_of_string_def strip_digits s parse_digits_def)
qed

lemma split_on_none: "sep \<notin> set s \<Longrightarrow> split_on sep s = [s]"
  by (induction s) auto

lemma split_on_once:
  "sep \<notin> set a \<Longrightarrow> sep \<notin> set b \<Longrightarrow> split_on sep (a @ sep # b) = [a, b]"
  by (induction a) (auto simp: split_on_none)

lemma stem_csv: "stem (x @ ''.csv'') = x"
  by (simp add: stem_def)

lemma glob_matches_lit:
  "p \<noteq> CHR ''*'' \<Longrightarrow> p \<noteq> CHR ''?'' \<Longrightarrow> p \<noteq> CHR ''['' \<Longrightarrow>
     glob_matches (p # ps) (x # s) = (x = p \<and> glob_matches ps s)"
  by (subst glob_matches.simps) simp

lemma glob_matches_star_here:
  "glob_matches ps s \<Longrightarrow> glob_matches (CHR ''*'' # ps) s"
  by (subst glob_matches.simps) simp

lemma glob_matches_star_skip:
  "glob_matches (CHR ''*'' # ps) s \<Longrightarrow> glob_matches (CHR ''*'' # ps) (x # s)"
  by (subst glob_matches.simps) simp

lemma glob_matches_literal:
  "list_all (\<lambda>c. c \<notin> set ''_*?[/'') l \<Longrightarrow> glob_matches (l @ ps) (l @ s) = glob_matches ps s"
  by (induction l) (simp_all add: glob_matches_lit)

lemma glob_matches_csv: "glob_matches ''.csv'' ''.csv''"
  by (simp add: glob_matches_lit glob_matches.simps(1))

lemma glob_matches_star_csv: "glob_matches ''*.csv'' (f @ ''.csv'')"
proof (induction f)
  case Nil
  show ?case using glob_matches_star_here[OF glob_matches_csv] by simp
next
  case (Cons c f)
  from glob_matches_star_skip[OF Cons.IH] show ?case by simp
qed

lemma glob_match_name:
  assumes "plain_label label"
  shows "glob_match label (label @ ''_'' @ f @ ''.csv'')"
proof -
  have "glob_matches (label @ ''_*.csv'') (label @ ''_'' @ f @ ''.csv'')
          = glob_matches ''_*.csv'' (''_'' @ f @ ''.csv'')"
    using assms unfolding plain_label_def by (rule glob_matches_literal)
  also have "\<dots> = glob_matches ''*.csv'' (f @ ''.csv'')"
    by (simp add: glob_matches_lit)
  finally show ?thesis by (simp add: glob_match_def glob_matches_star_csv)
qed

lemma plain_label_no_underscore: "plain_label label \<Longrightarrow> CHR ''_'' \<notin> set label"
  by (auto simp: plain_label_def list_all_iff)

lemma glob_match_segment_name:
  "plain_label label \<Longrightarrow> glob_match label (segment_name label (int n))"
  unfolding segment_name_def by (rule glob_match_name)

lemma file_index_segment_name:
  assumes "CHR ''_'' \<notin> set label"
  shows "file_index (segment_name label (int n)) = Some (int n)"
proof -
  let ?f = "format_03d (int n)"
  from format_03d_props[of n] have ne: "?f \<noteq> []" and dg: "list_all is_digit ?f"
    and v: "digits_value ?f = n" by blast+
  from dg have nu: "CHR ''_'' \<notin> set ?f"
    by (auto simp: list_all_iff dest: digit_not_sign)
  have "stem (segment_name label (int n)) = label @ CHR ''_'' # ?f"
    using stem_csv[of "label @ ''_'' @ ?f"] by (simp add: segment_name_def)
  then have "split_on CHR ''_'' (stem (segment_name label (int n))) = [label, ?f]"
    by (simp add: split_on_once[OF assms nu])
  then show ?thesis
    by (simp add: file_index_def py_int_of_string_digits[OF ne dg] v)
qed

lemma max_fold_bounds:
  fixes m :: int
  defines "step \<equiv> (\<lambda>max_idx name. case file_index name of
                None \<Rightarrow> max_idx | Some idx \<Rightarrow> if max_idx < idx then idx else max_idx)"
  shows "m \<le> foldl step m names"
    and "name \<in> set names \<Longrightarrow> file_index name = Some idx \<Longrightarrow> idx \<le> foldl step m names"
    and "foldl step m names = m \<or>
         (\<exists>name\<in>set names. file_index name = Some (foldl step m names))"
proof -
  have mono: "m \<le> foldl step m names" for m names
  proof (induction names arbitrary: m)
    case Nil
    then show ?case by simp
  next
    case (Cons a names)
    have "m \<le> step m a" by (simp add: step_def split: option.splits)
    also have "\<dots> \<le> foldl step (step m a) names" by (rule Cons.IH)
    finally show ?case by simp
  qed
  show "m \<le> foldl step m names" by (rule mono)
  show "idx \<le> foldl step m names" if "name \<in> set names" "file_index name = Some idx"
    using that
  proof (induction names arbitrary: m)
    case Nil
    then show ?case by simp
  next
    case (Cons a names)
    show ?case
    proof (cases "name = a")
      case True
      with Cons.prems have "idx \<le> step m a" by (simp add: step_def)
      also have "\<dots> \<le> foldl step (step m a) names" by (rule mono)
      finally show ?thesis by simp
    next
      case False
      with Cons.prems have "name \<in> set names" by simp
      from Cons.IH[OF this Cons.prems(2)] show ?thesis by simp
    qed
  qed
  show "foldl step m names = m \<or>
         (\<exists>name\<in>set names. file_index name = Some (foldl step m names))"
  proof (induction names arbitrary: m)
    case Nil
    then show ?case by simp
  next
    case (Cons a names)
    from Cons.IH[of "step m a"]
    consider "foldl step (step m a) names = step m a"
      | "\<exists>name\<in>set names. file_index name = Some (foldl step (step m a) names)" by blast
    then show ?case
    proof cases
      case 1
      have "step m a = m \<or> file_index a = Some (step m a)"
        by (auto simp: step_def split: option.splits)
      with 1 show ?thesis by auto
    next
      case 2
      then show ?thesis by auto
    qed
  qed
qed

lemma next_index_for_class_props:
  "1 \<le> next_index_for_class label names"
  "name \<in> set names \<Longrightarrow> glob_match label name \<Longrightarrow> file_index name = Some idx \<Longrightarrow>
     idx < next_index_for_class label names"
  "next_index_for_class label names = 1 \<or>
     (\<exists>name\<in>set names. glob_match label name \<and>
        file_index name = Some (next_index_for_class label names - 1))"
proof -
  let ?ms = "filter (glob_match label) names"
  from max_fold_bounds(1)[of 0 ?ms] show "1 \<le> next_index_for_class label names"
    by (simp add: next_index_for_class_def)
  show "idx < next_index_for_class label names"
    if "name \<in> set names" "glob_match label name" "file_index name = Some idx"
  proof -
    from that have "name \<in> set ?ms" by simp
    from max_fold_bounds(2)[OF this that(3), of 0] show ?thesis
      by (simp add: next_index_for_class_def)
  qed
  from max_fold_bounds(3)[of 0 ?ms]
  show "next_index_for_class label names = 1 \<or>
     (\<exists>name\<in>set names. glob_match label name \<and>
        file_index name = Some (next_index_for_class label names - 1))"
    by (auto simp: next_index_for_class_def)
qed

lemma new_name_fresh:
  assumes "plain_label label" and "next_index_for_class label names \<le> j"
  shows "segment_name label j \<notin> set names"
proof
  assume mem: "segment_name label j \<in> set names"
  from next_index_for_class_props(1)[of label names] assms(2) have "0 \<le> j" by simp
  then obtain n where j: "j = int n" by (metis nonneg_int_cases)
  from next_index_for_class_props(2)[OF mem[unfolded j] glob_match_segment_name[OF assms(1)]
      file_index_segment_name[OF plain_label_no_underscore[OF assms(1)]]] assms(2) j
  show False by simp
qed

lemma segment_name_inj:
  assumes "CHR ''_'' \<notin> set label" and "0 \<le> i" and "0 \<le> j"
    and "segment_name label i = segment_name label j"
  shows "i = j"
proof -
  from assms(2,3) obtain m n where m: "i = int m" and n: "j = int n"
    by (metis nonneg_int_cases)
  from assms(4) have "file_index (segment_name label i) = file_index (segment_name label j)"
    by (rule arg_cong)
  then have "Some i = Some j"
    unfolding m n file_index_segment_name[OF assms(1)] .
  then show ?thesis by (rule option.inject[THEN iffD1])
qed

lemma to_fixed_length_ok:
  assumes "ncols seg = 6" and "0 < nrows seg" and "0 \<le> L"
  shows "\<exists>r. to_fixed_length seg L = Inr r"
proof (cases "int (nrows seg) = L")
  case True
  with assms show ?thesis by (simp add: to_fixed_length_def)
next
  case False
  from linspace_ok[of "int (nrows seg)"] obtain old_x where
    o: "linspace 0 1 (int (nrows seg)) = Inr old_x" by auto
  from length_linspace[OF o] assms(2) have "old_x \<noteq> []" by auto
  moreover from linspace_ok[OF assms(3)] obtain new_x where
    "linspace 0 1 L = Inr new_x" by blast
  ultimately show ?thesis using assms(1) False o
    by (simp add: to_fixed_length_def Let_def interp_columns_def)
qed

lemma write_file_fresh:
  "name \<notin> fst ` set dir \<Longrightarrow> write_file name content dir = dir @ [(name, content)]"
  by (simp add: write_file_def)

lemma write_segments_fresh:
  assumes "CHR ''_'' \<notin> set label" and "0 \<le> idx"
    and "\<forall>seg\<in>set segs. ncols seg = 6 \<and> 0 < nrows seg"
    and "\<forall>i<length segs. segment_name label (idx + int i) \<notin> fst ` set dir"
  shows "\<exists>fixed. length fixed = length segs \<and>
           (\<forall>i<length segs. to_fixed_length (segs ! i) SEGMENT_SAMPLES = Inr (fixed ! i)) \<and>
           write_segments label segs idx count dir =
             (dir @ map (\<lambda>i. (segment_name label (idx + int i), fixed ! i)) [0..<length segs],
              Inr (count + length segs))"
  using assms(2,3,4)
proof (induction segs arbitrary: idx count dir)
  case Nil
  then show ?case by simp
next
  case (Cons seg segs)
  from Cons.prems(2) have "ncols seg = 6" "0 < nrows seg" by simp_all
  from to_fixed_length_ok[OF this, of SEGMENT_SAMPLES] obtain f where
    f: "to_fixed_length seg SEGMENT_SAMPLES = Inr f" by (auto simp: SEGMENT_SAMPLES_def)
  from Cons.prems(3) have fresh0: "segment_name label idx \<notin> fst ` set dir" by force
  let ?dir = "dir @ [(segment_name label idx, f)]"
  have fresh: "\<forall>i<length segs. segment_name label (idx + 1 + int i) \<notin> fst ` set ?dir"
  proof (intro allI impI)
    fix i assume i: "i < length segs"
    then have "Suc i < length (seg # segs)" by simp
    with Cons.prems(3) have "segment_name label (idx + int (Suc i)) \<notin> fst ` set dir"
      by blast
    moreover have e: "idx + int (Suc i) = idx + 1 + int i" by simp
    ultimately have a: "segment_name label (idx + 1 + int i) \<notin> fst ` set dir"
      by metis
    have "idx + 1 + int i \<noteq> idx" by simp
    with segment_name_inj[OF assms(1), of "idx + 1 + int i" idx] Cons.prems(1)
    have b: "segment_name label (idx + 1 + int i) \<noteq> segment_name label idx"
      by fastforce
    from a b show "segment_name label (idx + 1 + int i) \<notin> fst ` set ?dir"
      by simp
  qed
  from Cons.prems(1) have nn: "0 \<le> idx + 1" by simp
  from Cons.prems(2) have rest: "\<forall>seg\<in>set segs. ncols seg = 6 \<and> 0 < nrows seg" by simp
  from Cons.IH[OF nn rest fresh, of "count + 1"] obtain fixed where
    l: "length fixed = length segs"
    and t: "\<forall>i<length segs. to_fixed_length (segs ! i) SEGMENT_SAMPLES = Inr (fixed ! i)"
    and w: "write_segments label segs (idx + 1) (count + 1) ?dir =
             (?dir @ map (\<lambda>i. (segment_name label (idx + 1 + int i), fixed ! i)) [0..<length segs],
              Inr (count + 1 + length segs))" by blast
  let ?fixed = "f # fixed"
  have a: "length ?fixed = length (seg # segs)" using l by simp
  have b: "\<forall>i<length (seg # segs). to_fixed_length ((seg # segs) ! i) SEGMENT_SAMPLES = Inr (?fixed ! i)"
    using f t by (auto simp: nth_Cons split: nat.splits)
  have m: "map (\<lambda>i. (segment_name label (idx + int i), ?fixed ! i)) [0..<length (seg # segs)]
      = (segment_name label idx, f) #
        map (\<lambda>i. (segment_name label (idx + 1 + int i), fixed ! i)) [0..<length segs]"
  proof -
    have u: "[0..<length (seg # segs)] = 0 # map Suc [0..<length segs]"
      by (simp add: upt_conv_Cons map_Suc_upt del: upt_Suc)
    have e: "idx + int (Suc i) = idx + 1 + int i" for i by simp
    show ?thesis
      unfolding u list.map map_map o_def nth_Cons_0 nth_Cons_Suc e
      by simp
  qed
  have c: "write_segments label (seg # segs) idx count dir =
      (dir @ map (\<lambda>i. (segment_name label (idx + int i), ?fixed ! i)) [0..<length (seg # segs)],
       Inr (count + length (seg # segs)))"
    unfolding m using w by (simp add: f write_file_fresh[OF fresh0])
  from a b c show ?case by blast
qed

lemma map_of_replace:
  "map_of (map (\<lambda>(n, c). if n = name then (n, content) else (n, c)) dir) k =
     (if k = name then (if name \<in> fst ` set dir then Some content else None)
      else map_of dir k)"
proof (induction dir)
  case Nil
  then show ?case by simp
next
  case (Cons p dir)
  obtain n c where p: "p = (n, c)" by (cases p)
  show ?case
  proof (cases "n = name")
    case True
    with Cons.IH show ?thesis by (cases "k = name") (simp_all add: p)
  next
    case False
    with Cons.IH show ?thesis by (cases "k = name") (simp_all add: p)
  qed
qed

lemma map_of_write_file:
  "map_of (write_file name content dir) = (map_of dir)(name \<mapsto> content)"
proof (rule ext)
  fix k
  show "map_of (write_file name content dir) k = ((map_of dir)(name \<mapsto> content)) k"
  proof (cases "name \<in> fst ` set dir")
    case True
    then show ?thesis by (simp add: write_file_def map_of_replace)
  next
    case False
    then have "map_of dir name = None" by (simp add: map_of_eq_None_iff)
    with False show ?thesis
      by (simp add: write_file_def map_add_def split: option.splits)
  qed
qed

lemma write_segments_files:
  assumes "CHR ''_'' \<notin> set label" and "0 \<le> idx"
    and "\<forall>seg\<in>set segs. ncols seg = 6 \<and> 0 < nrows seg"
  shows "\<exists>fixed dir'. length fixed = length segs \<and>
           (\<forall>i<length segs. to_fixed_length (segs ! i) SEGMENT_SAMPLES = Inr (fixed ! i)) \<and>
           write_segments label segs idx count dir = (dir', Inr (count + length segs)) \<and>
           (\<forall>i<length segs. map_of dir' (segment_name label (idx + int i)) = Some (fixed ! i)) \<and>
           (\<forall>name. (\<forall>i<length segs. name \<noteq> segment_name label (idx + int i)) \<longrightarrow>
                map_of dir' name = map_of dir name)"
  using assms(2,3)
proof (induction segs arbitrary: idx count dir)
  case Nil
  then show ?case by simp
next
  case (Cons seg segs)
  from Cons.prems(2) have "ncols seg = 6" "0 < nrows seg" by simp_all
  from to_fixed_length_ok[OF this, of SEGMENT_SAMPLES] obtain f where
    f: "to_fixed_length seg SEGMENT_SAMPLES = Inr f" by (auto simp: SEGMENT_SAMPLES_def)
  let ?dir = "write_file (segment_name label idx) f dir"
  from Cons.prems(1) have nn: "0 \<le> idx + 1" by simp
  from Cons.prems(2) have rest: "\<forall>seg\<in>set segs. ncols seg = 6 \<and> 0 < nrows seg" by simp
  from Cons.IH[OF nn rest, of "count + 1" ?dir] obtain fixed dir' where
    l: "length fixed = length segs"
    and t: "\<forall>i<length segs. to_fixed_length (segs ! i) SEGMENT_SAMPLES = Inr (fixed ! i)"
    and w: "write_segments label segs (idx + 1) (count + 1) ?dir = (dir', Inr (count + 1 + length segs))"
    and new: "\<forall>i<length segs. map_of dir' (segment_name label (idx + 1 + int i)) = Some (fixed ! i)"
    and old: "\<forall>name. (\<forall>i<length segs. name \<noteq> segment_name label (idx + 1 + int i)) \<longrightarrow>
                map_of dir' name = map_of ?dir name" by blast
  have e: "idx + int (Suc i) = idx + 1 + int i" for i by simp
  have ne: "segment_name label idx \<noteq> segment_name label (idx + 1 + int i)" for i
  proof -
    have "idx \<noteq> idx + 1 + int i" by simp
    with segment_name_inj[OF assms(1), of idx "idx + 1 + int i"] Cons.prems(1)
    show ?thesis by fastforce
  qed
  let ?fixed = "f # fixed"
  have a: "length ?fixed = length (seg # segs)" using l by simp
  have b: "\<forall>i<length (seg # segs). to_fixed_length ((seg # segs) ! i) SEGMENT_SAMPLES = Inr (?fixed ! i)"
    using f t by (auto simp: nth_Cons split: nat.splits)
  have c: "write_segments label (seg # segs) idx count dir = (dir', Inr (count + length (seg # segs)))"
    using w by (simp add: f)
  have d: "\<forall>i<length (seg # segs). map_of dir' (segment_name label (idx + int i)) = Some (?fixed ! i)"
  proof (intro allI impI)
    fix i assume i: "i < length (seg # segs)"
    show "map_of dir' (segment_name label (idx + int i)) = Some (?fixed ! i)"
    proof (cases i)
      case 0
      from old ne have "map_of dir' (segment_name label idx) = map_of ?dir (segment_name label idx)"
        by blast
      with 0 show ?thesis by (simp add: map_of_write_file)
    next
      case (Suc j)
      with i have "j < length segs" by simp
      with new have "map_of dir' (segment_name label (idx + 1 + int j)) = Some (fixed ! j)" by blast
      then show ?thesis unfolding Suc e by simp
    qed
  qed
  have g: "\<forall>name. (\<forall>i<length (seg # segs). name \<noteq> segment_name label (idx + int i)) \<longrightarrow>
                map_of dir' name = map_of dir name"
  proof (intro allI impI)
    fix name assume h: "\<forall>i<length (seg # segs). name \<noteq> segment_name label (idx + int i)"
    then have h0: "name \<noteq> segment_name label idx" by force
    have "\<forall>i<length segs. name \<noteq> segment_name label (idx + 1 + int i)"
    proof (intro allI impI)
      fix i assume "i < length segs"
      then have "Suc i < length (seg # segs)" by simp
      with h have "name \<noteq> segment_name label (idx + int (Suc i))" by blast
      then show "name \<noteq> segment_name label (idx + 1 + int i)" unfolding e .
    qed
    with old have "map_of dir' name = map_of ?dir name" by blast
    with h0 show "map_of dir' name = map_of dir name" by (simp add: map_of_write_file)
  qed
  from a b c d g show ?case by blast
qed

text \<open>
  Claim C6, as the code has it. The two writing paths differ. For a plain class label
  (no underscore, no pattern character \<open>*\<close>, \<open>?\<close> or \<open>[\<close>, no path separator) and
  segments as the segmenter returns them (six channels, at least one row):
  \<^verbatim>\<open>process_new_folder\<close> names its files \<open>label_NNN.csv\<close>, with \<open>NNN\<close> zero-padded
  and increasing by one, starting from one more than the largest index present in the
  directory (from 1 when there is none); none of these names exists before, and the
  directory afterwards is the old directory followed by the new files.
  \<^verbatim>\<open>process_class\<close> numbers its files from 1 whatever the directory holds: after it
  the file \<open>label_NNN.csv\<close> of index \<open>1 + i\<close> holds the \<open>i\<close>-th new segment.
\<close>

theorem segment_files_numbering:
  assumes "plain_label label"
    and "\<forall>seg\<in>set segments. ncols seg = 6 \<and> 0 < nrows seg"
  shows "\<exists>fixed dir' dir''.
     length fixed = length segments \<and>
     (\<forall>i<length segments. to_fixed_length (segments ! i) SEGMENT_SAMPLES = Inr (fixed ! i)) \<and>
     process_new_folder label segments dir = (dir', Inr (length segments)) \<and>
     dir' = dir @ map (\<lambda>i. (segment_name label (next_index_for_class label (map fst dir) + int i),
                             fixed ! i)) [0..<length segments] \<and>
     (\<forall>i<length segments.
         segment_name label (next_index_for_class label (map fst dir) + int i) \<notin> fst ` set dir) \<and>
     1 \<le> next_index_for_class label (map fst dir) \<and>
     (\<forall>name idx. name \<in> fst ` set dir \<and> glob_match label name \<and> file_index name = Some idx
         \<longrightarrow> idx < next_index_for_class label (map fst dir)) \<and>
     (next_index_for_class label (map fst dir) = 1 \<or>
      (\<exists>name\<in>fst ` set dir. glob_match label name \<and>
          file_index name = Some (next_index_for_class label (map fst dir) - 1))) \<and>
     process_class label segments dir = (dir'', Inr (length segments)) \<and>
     (\<forall>i<length segments. map_of dir'' (segment_name label (1 + int i)) = Some (fixed ! i))"
proof -
  let ?next = "next_index_for_class label (map fst dir)"
  note np1 = next_index_for_class_props(1)[of label "map fst dir"]
  note np2 = next_index_for_class_props(2)[of _ "map fst dir" label]
  note np3 = next_index_for_class_props(3)[of label "map fst dir"]
  from np1 have nn: "0 \<le> ?next" by simp
  note nu = plain_label_no_underscore[OF assms(1)]
  have fresh: "\<forall>i<length segments. segment_name label (?next + int i) \<notin> fst ` set dir"
    using new_name_fresh[OF assms(1), of "map fst dir"] by simp
  from write_segments_fresh[OF nu nn assms(2) fresh, of 0] obtain fixed where
    l: "length fixed = length segments"
    and t: "\<forall>i<length segments. to_fixed_length (segments ! i) SEGMENT_SAMPLES = Inr (fixed ! i)"
    and w: "write_segments label segments ?next 0 dir =
             (dir @ map (\<lambda>i. (segment_name label (?next + int i), fixed ! i)) [0..<length segments],
              Inr (0 + length segments))" by blast
  from write_segments_files[OF nu _ assms(2), of 1 0 dir] obtain fixed' dir'' where
    l': "length fixed' = length segments"
    and t': "\<forall>i<length segments. to_fixed_length (segments ! i) SEGMENT_SAMPLES = Inr (fixed' ! i)"
    and w': "write_segments label segments 1 0 dir = (dir'', Inr (0 + length segments))"
    and m': "\<forall>i<length segments. map_of dir'' (segment_name label (1 + int i)) = Some (fixed' ! i)"
    by auto
  from t t' l l' have "fixed' = fixed"
    by (intro nth_equalityI) auto
  with m' have m: "\<forall>i<length segments. map_of dir'' (segment_name label (1 + int i)) = Some (fixed ! i)"
    by simp
  have pn: "process_new_folder label segments dir =
      (dir @ map (\<lambda>i. (segment_name label (?next + int i), fixed ! i)) [0..<length segments],
       Inr (length segments))"
    using w by (simp add: process_new_folder_def Let_def)
  have pc: "process_class label segments dir = (dir'', Inr (length segments))"
    using w' by (simp add: process_class_def)
  have older: "\<forall>name idx. name \<in> fst ` set dir \<and> glob_match label name \<and> file_index name = Some idx
         \<longrightarrow> idx < ?next"
    using np2 by auto
  have mx: "?next = 1 \<or> (\<exists>name\<in>fst ` set dir. glob_match label name \<and>
          file_index name = Some (?next - 1))"
    using np3 by auto
  from l t pn fresh np1 older mx pc m show ?thesis by blast
qed

lemma forehand_names:
  "segment_name ''Forehand'' 1 = ''Forehand_001.csv''"
  "segment_name ''Forehand'' 8 = ''Forehand_008.csv''"
  by code_simp+

lemma forehand_next:
  "next_index_for_class ''Forehand'' [''Forehand_001.csv''] = 2"
  "next_index_for_class ''Forehand'' [''Forehand_001.csv'', ''Forehand_007.csv''] = 8"
  by code_simp+

lemma ones100_fixed: "to_fixed_length ones100 SEGMENT_SAMPLES = Inr ones100"
  by (simp add: to_fixed_length_def ones100_def nrows_def SEGMENT_SAMPLES_def)

theorem segment_files_numbering_witness:
  "plain_label ''Forehand'' \<and>
   process_new_folder ''Forehand'' [ones100]
       [(''Forehand_001.csv'', zeros100), (''Forehand_007.csv'', zeros100)]
     = ([(''Forehand_001.csv'', zeros100), (''Forehand_007.csv'', zeros100),
         (''Forehand_008.csv'', ones100)], Inr 1)"
proof -
  let ?dir = "[(''Forehand_001.csv'', zeros100), (''Forehand_007.csv'', zeros100)]"
  have a: "plain_label ''Forehand''" by (simp add: plain_label_def)
  have b: "\<forall>seg\<in>set [ones100]. ncols seg = 6 \<and> 0 < nrows seg"
    by (simp add: ones100_def nrows_def)
  from segment_files_numbering[OF a b, of ?dir] obtain fixed dir' where
    t: "\<forall>i<length [ones100]. to_fixed_length ([ones100] ! i) SEGMENT_SAMPLES = Inr (fixed ! i)"
    and p: "process_new_folder ''Forehand'' [ones100] ?dir = (dir', Inr (length [ones100]))"
    and d: "dir' = ?dir @ map (\<lambda>i. (segment_name ''Forehand''
                (next_index_for_class ''Forehand'' (map fst ?dir) + int i), fixed ! i))
                [0..<length [ones100]]"
    by blast
  from t have "fixed ! 0 = ones100" by (simp add: ones100_fixed)
  with d have "dir' = ?dir @ [(''Forehand_008.csv'', ones100)]"
    by (simp add: forehand_next forehand_names)
  with p a show ?thesis by simp
qed

text \<open>
  A directory that holds \<open>Forehand_001.csv\<close>: one past the largest index is 2, and
  \<^verbatim>\<open>process_class\<close> writes its first segment to \<open>Forehand_001.csv\<close>, replacing the
  file.
\<close>

theorem process_class_overwrites_counterexample:
  "next_index_for_class ''Forehand'' (map fst [(''Forehand_001.csv'', zeros100)]) = 2 \<and>
   process_class ''Forehand'' [ones100] [(''Forehand_001.csv'', zeros100)]
     = ([(''Forehand_001.csv'', ones100)], Inr 1) \<and>
   ones100 \<noteq> zeros100"
proof -
  have "rows ones100 ! 0 \<noteq> rows zeros100 ! 0" by (simp add: ones100_def zeros100_def)
  then have "ones100 \<noteq> zeros100" by auto
  then show ?thesis
    by (simp add: forehand_next process_class_def ones100_fixed forehand_names write_file_def)
qed

end
